theory Spec2Isabelle
  imports Main "HOL-Library.AList"
begin

section \<open>Dynamic values\<close>

text \<open>
  The extractor and the remapper work on Go values of type \<open>interface{}\<close>. The
  dynamic types that the code tells apart are modelled by one constructor each:
  \<open>nil\<close>, \<open>bool\<close>, \<open>int\<close>, \<open>string\<close>, \<open>[]interface{}\<close> and
  \<open>map[string]interface{}\<close> (also \<open>Result\<close>, which is such a map), and
  \<open>[]string\<close>, which the downloader stores. Every other dynamic type
  (\<open>float64\<close>, \<open>int64\<close>, \<open>time.Time\<close>) is kept opaque in \<open>VOther\<close>.
  A Go map is an association list read with \<open>map_of\<close> and written with
  \<open>AList.update\<close>, so a key is bound once and a write to a bound key replaces its value
  in place.
\<close>

datatype val =
    VNil
  | VBool bool
  | VInt int
  | VOther string
  | VStr string
  | VArr "val list"
  | VMap "(string \<times> val) list"
  | VStrs "string list"

type_synonym gomap = "(string \<times> val) list"

datatype panic = IndexOutOfRange int nat

section \<open>String helpers of the Go standard library\<close>

text \<open>\<open>strings.Split(s, sep)\<close> for a one-byte separator: never empty.\<close>

fun split_on :: "char \<Rightarrow> string \<Rightarrow> string list" where
  "split_on c [] = [[]]"
| "split_on c (x # xs) =
     (if x = c then [] # split_on c xs
      else (case split_on c xs of
              [] \<Rightarrow> [[x]]
            | w # ws \<Rightarrow> (x # w) # ws))"

definition is_digit :: "char \<Rightarrow> bool" where
  "is_digit c = (c \<in> set ''0123456789'')"

definition digit_val :: "char \<Rightarrow> int" where
  "digit_val c = of_char c - 48"

text \<open>The decimal value of a digit string, most significant digit first.\<close>

definition dec_val :: "string \<Rightarrow> int" where
  "dec_val ds = foldl (\<lambda>acc c. 10 * acc + digit_val c) 0 ds"

text \<open>
  \<open>strconv.Atoi\<close> on a non-empty string of digits: the value, or an error when it does
  not fit the 64-bit \<open>int\<close>.
\<close>

definition atoi_digits :: "string \<Rightarrow> int option" where
  "atoi_digits ds = (if dec_val ds < 2 ^ 63 then Some (dec_val ds) else None)"

section \<open>The pattern \<open>\\[[0-9]+]\<close>\<close>

text \<open>
  Both \<open>complexPathing\<close> and \<open>extractNumberFromBrackets\<close> compile the fixed pattern
  \<open>\\[[0-9]+]\<close>: an opening bracket, one or more digits, a closing bracket.
  \<open>bracket_at s\<close> matches it at the start of \<open>s\<close> and gives the digits and the text
  after the match.
\<close>

definition bracket_at :: "string \<Rightarrow> (string \<times> string) option" where
  "bracket_at s =
     (case s of
        [] \<Rightarrow> None
      | c # t \<Rightarrow>
          if c = CHR ''[''
          then (let ds = takeWhile is_digit t; r = dropWhile is_digit t
                in if ds \<noteq> [] \<and> r \<noteq> [] \<and> hd r = CHR '']''
                   then Some (ds, tl r) else None)
          else None)"

text \<open>\<open>re.FindString(s)\<close>: the digits of the leftmost match.\<close>

fun find_bracket :: "string \<Rightarrow> string option" where
  "find_bracket [] = None"
| "find_bracket (c # cs) =
     (case bracket_at (c # cs) of
        Some (ds, r) \<Rightarrow> Some ds
      | None \<Rightarrow> find_bracket cs)"

text \<open>
  \<open>re.ReplaceAllString(s, "")\<close>: every match, left to right and without overlap, is
  removed. The walk is driven by the number of characters still to read.
\<close>

fun strip_from :: "nat \<Rightarrow> string \<Rightarrow> string" where
  "strip_from skip [] = []"
| "strip_from (Suc k) (c # cs) = strip_from k cs"
| "strip_from 0 (c # cs) =
     (case bracket_at (c # cs) of
        Some (ds, r) \<Rightarrow> strip_from (Suc (length ds)) cs
      | None \<Rightarrow> c # strip_from 0 cs)"

definition strip_brackets :: "string \<Rightarrow> string" where
  "strip_brackets s = strip_from 0 s"

section \<open>Path assignment\<close>

text \<open>
  \<open>extractNumberFromBrackets\<close>: the leftmost bracketed number of the key, or an error
  (\<open>None\<close>) when there is none or when it does not fit an \<open>int\<close>.
\<close>

definition extractNumberFromBrackets :: "string \<Rightarrow> int option" where
  "extractNumberFromBrackets s =
     (case find_bracket s of
        None \<Rightarrow> None
      | Some ds \<Rightarrow> atoi_digits ds)"

text \<open>
  The last key of a path. An array value is indexed by the key's bracketed number:
  the guard of the source is \<open>err != nil || n > len(v)\<close>, and \<open>v[n]\<close> panics when
  \<open>n\<close> is not an index of \<open>v\<close>, which after the guard is the case \<open>n = len(v)\<close>.
\<close>

definition assign_last :: "gomap \<Rightarrow> string \<Rightarrow> val \<Rightarrow> panic + gomap" where
  "assign_last m key v =
     (case v of
        VArr xs \<Rightarrow>
          (case extractNumberFromBrackets key of
             None \<Rightarrow> Inr (AList.update key (VArr xs) m)
           | Some n \<Rightarrow>
               if n > int (length xs) then Inr (AList.update key (VArr xs) m)
               else if 0 \<le> n \<and> n < int (length xs)
                    then Inr (AList.update (strip_brackets key) (xs ! nat n) m)
                    else Inl (IndexOutOfRange n (length xs)))
      | _ \<Rightarrow> Inr (AList.update key v m))"

text \<open>
  The loop of \<open>complexPathing\<close> over the keys. A missing key gets a fresh map, a key
  bound to a map is entered, and a key bound to anything else ends the call with the
  root as it is. The source updates the maps in place; here every level returns its
  updated map to the level above.
\<close>

fun walk_keys :: "gomap \<Rightarrow> string list \<Rightarrow> val \<Rightarrow> panic + gomap" where
  "walk_keys m [] v = Inr m"
| "walk_keys m [key] v = assign_last m key v"
| "walk_keys m (key # k2 # ks) v =
     (case map_of m key of
        None \<Rightarrow>
          (case walk_keys [] (k2 # ks) v of
             Inl p \<Rightarrow> Inl p
           | Inr sub \<Rightarrow> Inr (AList.update key (VMap sub) m))
      | Some (VMap sub) \<Rightarrow>
          (case walk_keys sub (k2 # ks) v of
             Inl p \<Rightarrow> Inl p
           | Inr sub' \<Rightarrow> Inr (AList.update key (VMap sub') m))
      | Some _ \<Rightarrow> Inr m)"

definition complexPathing :: "gomap \<Rightarrow> string \<Rightarrow> val \<Rightarrow> panic + gomap" where
  "complexPathing maps path v = walk_keys maps (split_on CHR ''.'' path) v"

text \<open>Reading a dotted path back, for stating what an assignment stored.\<close>

fun lookup_keys :: "gomap \<Rightarrow> string list \<Rightarrow> val option" where
  "lookup_keys m [] = None"
| "lookup_keys m [key] = map_of m key"
| "lookup_keys m (key # k2 # ks) =
     (case map_of m key of
        Some (VMap sub) \<Rightarrow> lookup_keys sub (k2 # ks)
      | _ \<Rightarrow> None)"

definition lookup_path :: "gomap \<Rightarrow> string \<Rightarrow> val option" where
  "lookup_path m path = lookup_keys m (split_on CHR ''.'' path)"

section \<open>Rules and the collaborators of the extractor\<close>

record transform =
  Match :: string
  Split :: bool
  Replace :: string

text \<open>
  \<open>ExtractionRule\<close>; the fields in the order of the struct. \<open>Children\<close> and
  \<open>Transforms\<close> are the elements of the two slices, which is what the evaluator reads
  of them.
\<close>

datatype rule =
  Rule (Name: string) (Selector: string) (Attr: string) (Multiple: bool)
       (Download: bool) (Visit: bool) (Flatten: bool) (SaveDir: string)
       (Children: "rule list") (Transforms: "transform list")

text \<open>
  No \<open>return\<close> of \<open>applyRule\<close> gives a non-nil error; the type is kept because the
  callers test \<open>err == nil\<close>.
\<close>

datatype error = Err string

text \<open>
  What the extractor calls outside the repository: the document selection of goquery
  (a selection is the list of its nodes), \<open>base.Parse(raw)\<close> followed by
  \<open>String()\<close> for the fixed base URL of the call, the fetcher, and the regular
  expressions of package \<open>regexp\<close>. \<open>None\<close> is the error return. The code never
  calls \<open>reMatch\<close> (\<open>MatchString\<close>); it is there to say that a pattern occurs in a
  string.
\<close>

record ('n, 'r) env =
  Find :: "'n list \<Rightarrow> string \<Rightarrow> 'n list"
  AttrOf :: "'n \<Rightarrow> string \<Rightarrow> string option"
  TextOf :: "'n \<Rightarrow> string"
  Parse :: "string \<Rightarrow> string option"
  Fetch :: "string \<Rightarrow> 'n list option"
  reCompile :: "string \<Rightarrow> 'r option"
  reSplit :: "'r \<Rightarrow> string \<Rightarrow> string list"
  reReplaceAll :: "'r \<Rightarrow> string \<Rightarrow> string \<Rightarrow> string"
  reMatch :: "'r \<Rightarrow> string \<Rightarrow> bool"

text \<open>
  \<open>s.Attr(name)\<close> with the found-flag dropped, as every caller drops it: the
  attribute of the first node, or the empty string.
\<close>

definition selAttr :: "('n, 'r) env \<Rightarrow> 'n list \<Rightarrow> string \<Rightarrow> string" where
  "selAttr e s a =
     (case s of
        [] \<Rightarrow> []
      | n # ns \<Rightarrow> (case AttrOf e n a of None \<Rightarrow> [] | Some v \<Rightarrow> v))"

text \<open>\<open>s.Text()\<close>: the texts of the nodes of the selection, one after the other.\<close>

definition selText :: "('n, 'r) env \<Rightarrow> 'n list \<Rightarrow> string" where
  "selText e s = concat (map (TextOf e) s)"

text \<open>\<open>strings.TrimSpace\<close> on the ASCII white space.\<close>

definition is_space :: "char \<Rightarrow> bool" where
  "is_space c = (c \<in> {CHR '' '', CHR 0x09, CHR 0x0A, CHR 0x0B, CHR 0x0C, CHR 0x0D})"

definition TrimSpace :: "string \<Rightarrow> string" where
  "TrimSpace s = rev (dropWhile is_space (rev (dropWhile is_space s)))"

section \<open>The transform pipeline\<close>

text \<open>\<open>strconv.Itoa\<close>: the decimal digits, with a minus sign for a negative number.\<close>

definition digit_char :: "nat \<Rightarrow> char" where
  "digit_char d = ''0123456789'' ! d"

fun string_of_nat :: "nat \<Rightarrow> string" where
  "string_of_nat n =
     (let last_digit = digit_char (n mod 10) in
      if 10 \<le> n then string_of_nat (n div 10) @ [last_digit] else [last_digit])"

declare string_of_nat.simps [simp del]

definition Itoa :: "int \<Rightarrow> string" where
  "Itoa i = (if i < 0 then CHR ''-'' # string_of_nat (nat (- i)) else string_of_nat (nat i))"

definition safeString :: "val \<Rightarrow> string" where
  "safeString r = (case r of VStr v \<Rightarrow> v | VInt v \<Rightarrow> Itoa v | _ \<Rightarrow> [])"

text \<open>
  The loop of \<open>applyTransform\<close> over the transforms, on the collected fragments
  \<open>out\<close> and the current string \<open>ss\<close>. A pattern that does not compile is skipped.
\<close>

fun transform_loop ::
  "('n, 'r) env \<Rightarrow> transform list \<Rightarrow> string list \<Rightarrow> string \<Rightarrow> string list \<times> string"
where
  "transform_loop e [] out ss = (out, ss)"
| "transform_loop e (t # ts) out ss =
     (case reCompile e (Match t) of
        None \<Rightarrow> transform_loop e ts out ss
      | Some r \<Rightarrow>
          if Split t
          then transform_loop e ts (out @ filter (\<lambda>v. length v > 0) (reSplit e r ss)) ss
          else transform_loop e ts out (reReplaceAll e r ss (Replace t)))"

definition applyTransform :: "('n, 'r) env \<Rightarrow> val \<Rightarrow> transform list \<Rightarrow> val list" where
  "applyTransform e raw t =
     (if length t = 0 then [raw]
      else let ss = safeString raw in
        if ss = [] then [raw]
        else (case transform_loop e t [] ss of
                (out, ss') \<Rightarrow> if length out > 0 then map VStr out else [VStr ss']))"

definition applyTransforms :: "('n, 'r) env \<Rightarrow> val list \<Rightarrow> transform list \<Rightarrow> val list" where
  "applyTransforms e raw t = concat (map (\<lambda>r. applyTransform e r t) raw)"

fun flattenList :: "val list \<Rightarrow> val list" where
  "flattenList [] = []"
| "flattenList (VArr nested # vals) = flattenList nested @ flattenList vals"
| "flattenList (v # vals) = v # flattenList vals"

section \<open>Rule evaluation\<close>

definition default_transforms :: "transform list" where
  "default_transforms = [\<lparr>Match = ''^//'', Split = False, Replace = ''https://''\<rparr>]"

text \<open>
  The first statement of \<open>applyRule\<close> writes the default transform into a rule that
  has none. The rule is reached through a pointer, so the caller sees the write:
  every function below returns the rules it was given as they are after the call.
\<close>

definition set_default_transforms :: "rule \<Rightarrow> rule" where
  "set_default_transforms r =
     (if length (Transforms r) = 0
      then Rule (Name r) (Selector r) (Attr r) (Multiple r) (Download r) (Visit r)
             (Flatten r) (SaveDir r) (Children r) default_transforms
      else r)"

definition set_children :: "rule \<Rightarrow> rule list \<Rightarrow> rule" where
  "set_children r cs =
     Rule (Name r) (Selector r) (Attr r) (Multiple r) (Download r) (Visit r)
       (Flatten r) (SaveDir r) cs (Transforms r)"

text \<open>The value one match contributes to a leaf rule with \<open>Multiple\<close>.\<close>

definition leaf_value :: "('n, 'r) env \<Rightarrow> rule \<Rightarrow> 'n \<Rightarrow> val" where
  "leaf_value e rule n =
     (if Attr rule \<noteq> []
      then (let raw = selAttr e [n] (Attr rule) in
            if (Download rule \<or> Visit rule) \<and> raw \<noteq> []
            then (case Parse e raw of Some u2 \<Rightarrow> VStr u2 | None \<Rightarrow> VStr raw)
            else VStr raw)
      else VStr (TrimSpace (selText e [n])))"

text \<open>The part of \<open>applyRule\<close> after the comment \<open>leaf rule\<close>.\<close>

definition leaf_rule :: "('n, 'r) env \<Rightarrow> 'n list \<Rightarrow> rule \<Rightarrow> val" where
  "leaf_rule e sel rule =
     (if Multiple rule
      then (let vals = map (leaf_value e rule) (Find e sel (Selector rule));
                vals' = (if Flatten rule then flattenList vals else vals)
            in VArr (applyTransforms e vals' (Transforms rule)))
      else (let s = take 1 (Find e sel (Selector rule)) in
            if Attr rule \<noteq> []
            then VArr (applyTransform e (VStr (selAttr e s (Attr rule))) (Transforms rule))
            else VArr (applyTransform e (VStr (TrimSpace (selText e s))) (Transforms rule))))"

text \<open>The record-level attribute of a rule with children and without \<open>Multiple\<close>.\<close>

definition single_attr :: "('n, 'r) env \<Rightarrow> rule \<Rightarrow> 'n list \<Rightarrow> gomap" where
  "single_attr e rule s =
     (if Attr rule \<noteq> []
      then (let raw = selAttr e s (Attr rule) in
            if (Download rule \<or> Visit rule) \<and> raw \<noteq> []
            then (case Parse e raw of
                    Some u2 \<Rightarrow> AList.update (Attr rule) (VStr u2) []
                  | None \<Rightarrow>
                      AList.update (Attr rule)
                        (VArr (applyTransform e (VStr raw) (Transforms rule))) [])
            else AList.update (Attr rule)
                   (VArr (applyTransform e (VStr raw) (Transforms rule))) [])
      else [])"

text \<open>A measure that the write to \<open>Transforms\<close> does not change.\<close>

fun nodes :: "rule \<Rightarrow> nat" where
  "nodes (Rule n s a m d v f sd cs ts) = Suc (sum_list (map nodes cs))"

text \<open>
  \<open>applyRule\<close> with its loops. \<open>child_loop\<close> is the loop over the children of a
  rule against one scope, on the record \<open>rec\<close>. For a rule with children and
  \<open>Multiple\<close>, \<open>each_match\<close> is the closure passed to \<open>Each\<close>, on the list of
  records, and \<open>record_attr\<close> is the block \<open>if rule.Attr != ""\<close> of that closure,
  which follows the link of a rule with \<open>Visit\<close>. The slice \<open>output\<close> of the source is
  never appended to, so its test \<open>len(output) > 1\<close> is never taken. The progress
  counter \<open>rp\<close> is left out.
\<close>

function applyRule :: "('n, 'r) env \<Rightarrow> 'n list \<Rightarrow> rule \<Rightarrow> rule \<times> (error + val)"
  and child_loop :: "('n, 'r) env \<Rightarrow> 'n list \<Rightarrow> rule list \<Rightarrow> gomap \<Rightarrow> rule list \<times> gomap"
  and record_attr :: "('n, 'r) env \<Rightarrow> rule \<Rightarrow> 'n list \<Rightarrow> rule list \<Rightarrow> rule list \<times> gomap"
  and each_match ::
    "('n, 'r) env \<Rightarrow> rule \<Rightarrow> 'n list \<Rightarrow> rule list \<Rightarrow> val list \<Rightarrow> rule list \<times> val list"
where
  "applyRule e sel rule0 =
     (let rule = set_default_transforms rule0 in
      if length (Children rule) > 0 then
        (if Multiple rule then
           (case each_match e rule (Find e sel (Selector rule)) (Children rule) [] of
              (cs, list) \<Rightarrow>
                (set_children rule cs, Inr (VArr (applyTransforms e list (Transforms rule)))))
         else
           (let s = take 1 (Find e sel (Selector rule)) in
            case child_loop e s (Children rule) (single_attr e rule s) of
              (cs, rec) \<Rightarrow> (set_children rule cs, Inr (VMap rec))))
      else (rule, Inr (leaf_rule e sel rule)))"
| "child_loop e s [] rec = ([], rec)"
| "child_loop e s (c # cs) rec =
     (case applyRule e s c of
        (c', res) \<Rightarrow>
          (case child_loop e s cs
                  (case res of Inr v \<Rightarrow> AList.update (Name c') v rec | Inl err \<Rightarrow> rec) of
             (cs', rec') \<Rightarrow> (c' # cs', rec')))"
| "record_attr e rule s cs =
     (if Attr rule \<noteq> [] then
        (let raw = selAttr e s (Attr rule) in
         if (Download rule \<or> Visit rule) \<and> raw \<noteq> [] then
           (case Parse e raw of
              Some u2 \<Rightarrow>
                if Visit rule then
                  (case Fetch e u2 of
                     Some doc \<Rightarrow> child_loop e doc cs []
                   | None \<Rightarrow> (cs, AList.update (Attr rule) (VStr u2) []))
                else (cs, AList.update (Attr rule) (VStr u2) [])
            | None \<Rightarrow> (cs, AList.update (Attr rule) (VStr raw) []))
         else (cs, AList.update (Attr rule) (VStr raw) []))
      else (cs, []))"
| "each_match e rule [] cs list = (cs, list)"
| "each_match e rule (n # ns) cs list =
     (case record_attr e rule [n] cs of
        (cs1, rec1) \<Rightarrow>
          (case (if \<not> Visit rule then child_loop e [n] cs1 rec1 else (cs1, rec1)) of
             (cs2, rec2) \<Rightarrow> each_match e rule ns cs2 (list @ [VMap rec2])))"
  by pat_completeness auto

lemma nodes_unfold: "nodes r = Suc (sum_list (map nodes (Children r)))"
  by (cases r) simp

lemma Children_set_default [simp]: "Children (set_default_transforms r) = Children r"
  by (simp add: set_default_transforms_def)

lemma nodes_set_default [simp]: "nodes (set_default_transforms r) = nodes r"
  by (cases r) (simp add: set_default_transforms_def)

lemma nodes_pos [simp]: "0 < nodes r"
  by (cases r) simp

lemma nodes_set_children [simp]: "nodes (set_children r cs) = Suc (sum_list (map nodes cs))"
  by (simp add: set_children_def)

text \<open>
  The rules that a call returns have the shape of the rules it was given. This is
  what makes the loop over the matches terminate: it passes the children on from one
  match to the next.
\<close>

lemma nodes_preserved:
  "applyRule_child_loop_record_attr_each_match_dom (Inl (Inl (e, sel, r))) \<Longrightarrow>
     nodes (fst (applyRule e sel r)) = nodes r"
  "applyRule_child_loop_record_attr_each_match_dom (Inl (Inr (e, s, cs, rec))) \<Longrightarrow>
     map nodes (fst (child_loop e s cs rec)) = map nodes cs"
  "applyRule_child_loop_record_attr_each_match_dom (Inr (Inl (e, rule, s, cs))) \<Longrightarrow>
     map nodes (fst (record_attr e rule s cs)) = map nodes cs"
  "applyRule_child_loop_record_attr_each_match_dom (Inr (Inr (e, rule, ns, cs, l))) \<Longrightarrow>
     map nodes (fst (each_match e rule ns cs l)) = map nodes cs"
proof (induct rule: applyRule_child_loop_record_attr_each_match.pinduct)
  case (1 e sel rule0)
  then show ?case
    by (auto simp: applyRule.psimps Let_def nodes_unfold[of rule0] split: prod.splits)
next
  case (2 e s rec)
  then show ?case by (simp add: child_loop.psimps)
next
  case (3 e s c cs rec)
  then show ?case
    by (auto simp: child_loop.psimps split: prod.splits)
next
  case (4 e rule s cs)
  then show ?case
    by (auto simp: record_attr.psimps Let_def split: option.splits)
next
  case (5 e rule cs list)
  then show ?case by (simp add: each_match.psimps)
next
  case (6 e rule n ns cs list)
  obtain cs1 rec1 where A: "record_attr e rule [n] cs = (cs1, rec1)"
    by (cases "record_attr e rule [n] cs")
  obtain cs2 rec2 where B:
    "(if \<not> Visit rule then child_loop e [n] cs1 rec1 else (cs1, rec1)) = (cs2, rec2)"
    by (cases "if \<not> Visit rule then child_loop e [n] cs1 rec1 else (cs1, rec1)")
  have 1: "map nodes cs1 = map nodes cs" using 6(2) A by simp
  have 2: "map nodes cs2 = map nodes cs1"
    using 6(3)[OF A[symmetric]] B by (auto split: if_splits)
  have 3: "map nodes (fst (each_match e rule ns cs2 (list @ [VMap rec2]))) = map nodes cs2"
    using 6(4)[OF A[symmetric] B[symmetric]] .
  show ?case using 6(1) A B 1 2 3 by (simp add: each_match.psimps)
qed

termination applyRule
proof (relation "inv_image (less_than <*lex*> less_than) (\<lambda>x. case x of
       Inl (Inl (e, s, r)) \<Rightarrow> (nodes r, 0)
     | Inl (Inr (e, s, cs, rec)) \<Rightarrow> (sum_list (map nodes cs), 1)
     | Inr (Inl (e, r, s, cs)) \<Rightarrow> (sum_list (map nodes cs), 2)
     | Inr (Inr (e, r, ns, cs, l)) \<Rightarrow> (sum_list (map nodes cs), 3 + length ns))",
    goal_cases)
  case 1
  show ?case by (intro wf_inv_image wf_lex_prod wf_less_than)
next
  case (2 e sel rule0 x)
  then show ?case using nodes_unfold[of rule0] by simp
next
  case (3 e sel rule0 x xa)
  then show ?case using nodes_unfold[of rule0] by simp
next
  case (4 e s c cs rec)
  show ?case by (cases cs) simp_all
next
  case (5 e s c cs rec x y)
  show ?case by simp
next
  case (6 e rule s cs x x2 x2a)
  show ?case by simp
next
  case (7 e rule n ns cs list)
  show ?case by simp
next
  case (8 e rule n ns cs list x y)
  from 8 have "map nodes (fst (record_attr e rule [n] cs)) = map nodes cs"
    by (intro nodes_preserved(3)) simp
  moreover from 8 have "record_attr e rule [n] cs = (x, y)" by simp
  ultimately have "sum_list (map nodes x) = sum_list (map nodes cs)" by simp
  then show ?case by simp
next
  case (9 e rule n ns cs list x y xa ya)
  from 9 have "map nodes (fst (record_attr e rule [n] cs)) = map nodes cs"
    by (intro nodes_preserved(3)) simp
  moreover from 9 have "record_attr e rule [n] cs = (x, y)" by simp
  ultimately have 1: "map nodes x = map nodes cs" by simp
  have 2: "map nodes xa = map nodes x"
  proof (cases "Visit rule")
    case True
    with 9 show ?thesis by (metis Pair_inject)
  next
    case False
    with 9 have "map nodes (fst (child_loop e [n] x y)) = map nodes x"
      by (intro nodes_preserved(2)) simp
    moreover from 9 False have "child_loop e [n] x y = (xa, ya)" by simp
    ultimately show ?thesis by simp
  qed
  from 1 2 have "sum_list (map nodes xa) = sum_list (map nodes cs)" by simp
  then show ?case by simp
qed

declare applyRule.simps [simp del] record_attr.simps [simp del]

section \<open>The remapper\<close>

text \<open>\<open>strings.HasPrefix\<close>, \<open>strings.Contains\<close>, and \<open>strings.ReplaceAll\<close> for a
  non-empty \<open>old\<close>, the only way the code calls it.\<close>

definition starts_with :: "string \<Rightarrow> string \<Rightarrow> bool" where
  "starts_with p s = (take (length p) s = p)"

fun contains :: "string \<Rightarrow> string \<Rightarrow> bool" where
  "contains p [] = (p = [])"
| "contains p (c # cs) = (starts_with p (c # cs) \<or> contains p cs)"

fun replace_from :: "nat \<Rightarrow> string \<Rightarrow> string \<Rightarrow> string \<Rightarrow> string" where
  "replace_from skip old new [] = []"
| "replace_from (Suc k) old new (c # cs) = replace_from k old new cs"
| "replace_from 0 old new (c # cs) =
     (if starts_with old (c # cs) then new @ replace_from (length old - 1) old new cs
      else c # replace_from 0 old new cs)"

definition ReplaceAll :: "string \<Rightarrow> string \<Rightarrow> string \<Rightarrow> string" where
  "ReplaceAll s old new = replace_from 0 old new s"

text \<open>\<open>strings.EqualFold\<close> on ASCII letters.\<close>

definition lower :: "char \<Rightarrow> char" where
  "lower c = (if c \<in> set ''ABCDEFGHIJKLMNOPQRSTUVWXYZ'' then char_of (of_char c + (32::nat)) else c)"

definition EqualFold :: "string \<Rightarrow> string \<Rightarrow> bool" where
  "EqualFold s t = (map lower s = map lower t)"

text \<open>\<open>Mapping\<close>; a nil \<open>Format\<close> is \<open>None\<close>.\<close>

datatype mapping =
  Mapping (Object: string) (Key: string) (To: string) (Format: "gomap option")
          (IsArray: bool) (IsObject: bool) (ArrayObjMap: "mapping list")

text \<open>
  What a placeholder resolves to comes from outside the program: the fresh UUID, the
  random bytes in hexadecimal and in base 64, and the clock (the Unix time, and the
  \<open>time.Time\<close> value as printed).
\<close>

record entropy =
  uuid :: string
  hex16 :: string
  base64_18 :: string
  unix :: int
  now :: string

definition replacePlaceholdersInterface :: "entropy \<Rightarrow> val \<Rightarrow> int \<Rightarrow> val" where
  "replacePlaceholdersInterface g raw index =
     (let s = safeString raw in
      if s = [] then raw
      else if EqualFold s ''{{unix}}'' then VOther (Itoa (unix g))
      else if EqualFold s ''{{time}}'' then VOther (now g)
      else if EqualFold s ''{{index}}'' then VInt index
      else if EqualFold s ''{{index+1}}'' then VInt (index + 1)
      else
        (let s1 = (if contains ''{{uuid}}'' s then ReplaceAll s ''{{uuid}}'' (uuid g) else s);
             s2 = (if contains ''{{hex}}'' s1 then ReplaceAll s1 ''{{hex}}'' (hex16 g) else s1);
             s3 = (if contains ''{{base64}}'' s2
                   then ReplaceAll s2 ''{{base64}}'' (base64_18 g) else s2);
             s4 = (if contains ''{{unix}}'' s3
                   then ReplaceAll s3 ''{{unix}}'' (Itoa (unix g)) else s3)
         in VStr s4))"

text \<open>
  \<open>deepCopy\<close>, \<open>deepCopyMap\<close> and \<open>deepCopySlice\<close>; the last gives every element
  its own position as the index, counted here from \<open>i\<close>.
\<close>

fun deepCopy :: "entropy \<Rightarrow> val \<Rightarrow> int \<Rightarrow> val"
  and deepCopyMap :: "entropy \<Rightarrow> gomap \<Rightarrow> int \<Rightarrow> gomap"
  and deepCopySlice_from :: "entropy \<Rightarrow> val list \<Rightarrow> int \<Rightarrow> val list"
where
  "deepCopy g (VMap v) index = VMap (deepCopyMap g v index)"
| "deepCopy g (VArr v) index = VArr (deepCopySlice_from g v 0)"
| "deepCopy g VNil index = replacePlaceholdersInterface g VNil index"
| "deepCopy g (VBool b) index = replacePlaceholdersInterface g (VBool b) index"
| "deepCopy g (VInt n) index = replacePlaceholdersInterface g (VInt n) index"
| "deepCopy g (VOther x) index = replacePlaceholdersInterface g (VOther x) index"
| "deepCopy g (VStr x) index = replacePlaceholdersInterface g (VStr x) index"
| "deepCopy g (VStrs x) index = replacePlaceholdersInterface g (VStrs x) index"
| "deepCopyMap g [] index = []"
| "deepCopyMap g ((k, v) # m) index = (k, deepCopy g v index) # deepCopyMap g m index"
| "deepCopySlice_from g [] i = []"
| "deepCopySlice_from g (v # s) i = deepCopy g v i # deepCopySlice_from g s (i + 1)"

definition deepCopySlice :: "entropy \<Rightarrow> val list \<Rightarrow> val list" where
  "deepCopySlice g s = deepCopySlice_from g s 0"

text \<open>
  gjson is outside the repository. \<open>get v path\<close> stands for \<open>Get\<close> on the JSON text of
  \<open>v\<close>: the value at the path as \<open>Value()\<close> gives it, or \<open>None\<close> when \<open>Exists()\<close> is
  false. \<open>Value()\<close> of a result that does not exist is nil, and \<open>ForEach\<close> visits the
  elements of an array, the values of an object, any other value once, and nothing when
  the result does not exist.
\<close>

definition gjson_value :: "val option \<Rightarrow> val" where
  "gjson_value r = (case r of None \<Rightarrow> VNil | Some v \<Rightarrow> v)"

definition gjson_each :: "val option \<Rightarrow> val list" where
  "gjson_each r =
     (case r of
        None \<Rightarrow> []
      | Some (VArr xs) \<Rightarrow> xs
      | Some (VMap kvs) \<Rightarrow> map snd kvs
      | Some v \<Rightarrow> [v])"

text \<open>The two writes of \<open>remapSingleObject\<close> to the mapping it reads.\<close>

definition normalize_mapping :: "mapping \<Rightarrow> mapping" where
  "normalize_mapping rule =
     Mapping (Object rule) (ReplaceAll (ReplaceAll (Key rule) ''['' ''.'') '']'' [])
       (To rule) (case Format rule of None \<Rightarrow> Some [] | Some f \<Rightarrow> Some f)
       (IsArray rule) (IsObject rule) (ArrayObjMap rule)"

text \<open>
  The loop of \<open>remapSingleObject\<close> over its mappings, on the object \<open>remappedObj\<close>.
  It returns the mappings as the loop leaves them, since the caller reaches them through
  pointers. \<open>complexPathing\<close> writes into the object in place.
\<close>

fun remap_loop ::
  "(val \<Rightarrow> string \<Rightarrow> val option) \<Rightarrow> entropy \<Rightarrow> val \<Rightarrow> int \<Rightarrow> mapping list \<Rightarrow> gomap
     \<Rightarrow> panic + (mapping list \<times> gomap)"
where
  "remap_loop get g obj index [] remappedObj = Inr ([], remappedObj)"
| "remap_loop get g obj index (rule0 # rules) remappedObj =
     (let rule = normalize_mapping rule0;
          gjsonVal = (if Key rule = [] \<or> Key rule = ''.'' then Some obj else get obj (Key rule));
          formatCopy = deepCopyMap g (case Format rule of None \<Rightarrow> [] | Some f \<Rightarrow> f) index;
          withFormat = fold (\<lambda>(k, v) m. AList.update k v m) formatCopy remappedObj
      in case (if gjsonVal \<noteq> None
               then complexPathing withFormat (To rule) (gjson_value gjsonVal)
               else Inr withFormat) of
           Inl p \<Rightarrow> Inl p
         | Inr obj' \<Rightarrow>
             (case remap_loop get g obj index rules obj' of
                Inl p \<Rightarrow> Inl p
              | Inr (rules', out) \<Rightarrow> Inr (rule # rules', out)))"

definition remapSingleObject ::
  "(val \<Rightarrow> string \<Rightarrow> val option) \<Rightarrow> entropy \<Rightarrow> val \<Rightarrow> mapping list \<Rightarrow> int
     \<Rightarrow> panic + (mapping list \<times> gomap)"
where
  "remapSingleObject get g obj rules index = remap_loop get g obj index rules []"

text \<open>
  The callback of \<open>ForEach\<close> in \<open>MapResultsResults\<close>, over the values still to visit:
  \<open>sub\<close> is the \<open>ArrayObjMap\<close> of the mapping as it is now, and \<open>index\<close> the counter.
\<close>

fun each_value ::
  "(val \<Rightarrow> string \<Rightarrow> val option) \<Rightarrow> entropy \<Rightarrow> mapping list \<Rightarrow> int \<Rightarrow> val list \<Rightarrow> val list
     \<Rightarrow> panic + (mapping list \<times> val list)"
where
  "each_value get g sub index [] arrayResult = Inr (sub, arrayResult)"
| "each_value get g sub index (v # vs) arrayResult =
     (if length sub > 0
      then (case remapSingleObject get g v sub index of
              Inl p \<Rightarrow> Inl p
            | Inr (sub', nestedObj) \<Rightarrow>
                each_value get g sub' (index + 1) vs (arrayResult @ [VMap nestedObj]))
      else each_value get g sub (index + 1) vs (arrayResult @ [v]))"

text \<open>
  The state of the loop of \<open>MapResultsResults\<close>: the named buckets \<open>objMap\<close> and the
  shared root \<open>remappedData\<close>.
\<close>

record remap_state =
  objMap :: "(string \<times> gomap) list"
  remappedData :: gomap

text \<open>The value a mapping writes, and the mapping as computing the value leaves it.\<close>

definition mapping_value ::
  "(val \<Rightarrow> string \<Rightarrow> val option) \<Rightarrow> entropy \<Rightarrow> val \<Rightarrow> mapping \<Rightarrow> panic + (mapping \<times> val)"
where
  "mapping_value get g result mapping =
     (let gjsonResult = get result (Key mapping) in
      if IsArray mapping \<or> length (ArrayObjMap mapping) > 0
      then (case each_value get g (ArrayObjMap mapping) 0 (gjson_each gjsonResult) [] of
              Inl p \<Rightarrow> Inl p
            | Inr (sub', arrayResult) \<Rightarrow>
                Inr (Mapping (Object mapping) (Key mapping) (To mapping) (Format mapping)
                       (IsArray mapping) (IsObject mapping) sub',
                     VArr arrayResult))
      else Inr (mapping, gjson_value gjsonResult))"

text \<open>The map a mapping writes into: the shared root, or its bucket, made when missing.\<close>

definition target_map :: "remap_state \<Rightarrow> mapping \<Rightarrow> gomap" where
  "target_map st mapping =
     (if Object mapping = [] then remappedData st
      else (case map_of (objMap st) (Object mapping) of None \<Rightarrow> [] | Some m \<Rightarrow> m))"

definition write_mapping :: "remap_state \<Rightarrow> mapping \<Rightarrow> val \<Rightarrow> panic + remap_state" where
  "write_mapping st mapping v =
     (case complexPathing (target_map st mapping) (To mapping) v of
        Inl p \<Rightarrow> Inl p
      | Inr m \<Rightarrow>
          Inr (if Object mapping = [] then st\<lparr>remappedData := m\<rparr>
               else st\<lparr>objMap := AList.update (Object mapping) m (objMap st)\<rparr>))"

definition apply_mapping ::
  "(val \<Rightarrow> string \<Rightarrow> val option) \<Rightarrow> entropy \<Rightarrow> val \<Rightarrow> remap_state \<Rightarrow> mapping
     \<Rightarrow> panic + (mapping \<times> remap_state)"
where
  "apply_mapping get g result st mapping =
     (case mapping_value get g result mapping of
        Inl p \<Rightarrow> Inl p
      | Inr (mapping', v) \<Rightarrow>
          (case write_mapping st mapping' v of
             Inl p \<Rightarrow> Inl p
           | Inr st' \<Rightarrow> Inr (mapping', st')))"

fun mapping_loop ::
  "(val \<Rightarrow> string \<Rightarrow> val option) \<Rightarrow> entropy \<Rightarrow> val \<Rightarrow> mapping list \<Rightarrow> remap_state
     \<Rightarrow> panic + (mapping list \<times> remap_state)"
where
  "mapping_loop get g result [] st = Inr ([], st)"
| "mapping_loop get g result (mapping # ms) st =
     (case apply_mapping get g result st mapping of
        Inl p \<Rightarrow> Inl p
      | Inr (mapping', st') \<Rightarrow>
          (case mapping_loop get g result ms st' of
             Inl p \<Rightarrow> Inl p
           | Inr (ms', st'') \<Rightarrow> Inr (mapping' # ms', st'')))"

text \<open>
  \<open>MapResultsResults\<close> on the mappings of the rule. The result is marshalled to JSON
  first, which cannot fail on the values modelled here. Only the shared root is
  returned; the mappings are returned with it as the call leaves them.
\<close>

definition MapResultsResults ::
  "(val \<Rightarrow> string \<Rightarrow> val option) \<Rightarrow> entropy \<Rightarrow> gomap \<Rightarrow> mapping list
     \<Rightarrow> panic + (mapping list \<times> gomap)"
where
  "MapResultsResults get g result ms =
     (case mapping_loop get g (VMap result) ms \<lparr>objMap = [], remappedData = []\<rparr> of
        Inl p \<Rightarrow> Inl p
      | Inr (ms', st) \<Rightarrow> Inr (ms', remappedData st))"

section \<open>The downloader\<close>

text \<open>
  \<open>filepath.Ext\<close>: the suffix of the last path element from its last dot on, or
  nothing.
\<close>

definition Ext :: "string \<Rightarrow> string" where
  "Ext path =
     (let r = takeWhile (\<lambda>c. c \<noteq> CHR ''/'') (rev path) in
      if CHR ''.'' \<in> set r then CHR ''.'' # rev (takeWhile (\<lambda>c. c \<noteq> CHR ''.'') r) else [])"

definition HasSuffix :: "string \<Rightarrow> string \<Rightarrow> bool" where
  "HasSuffix s suffix = starts_with (rev suffix) (rev s)"

definition TrimSuffix :: "string \<Rightarrow> string \<Rightarrow> string" where
  "TrimSuffix s suffix = (if HasSuffix s suffix then take (length s - length suffix) s else s)"

text \<open>The extension is a suffix of the name, so trimming it makes the name shorter.\<close>

lemma starts_with_append [simp]: "starts_with p (p @ s)"
  by (simp add: starts_with_def)

lemma Ext_suffix: "Ext p \<noteq> [] \<Longrightarrow> HasSuffix p (Ext p)"
proof -
  assume a: "Ext p \<noteq> []"
  let ?r = "takeWhile (\<lambda>c. c \<noteq> CHR ''/'') (rev p)"
  from a have dot: "CHR ''.'' \<in> set ?r" by (auto simp: Ext_def Let_def split: if_splits)
  then obtain rest where r: "?r = takeWhile (\<lambda>c. c \<noteq> CHR ''.'') ?r @ CHR ''.'' # rest"
  proof -
    let ?d = "dropWhile (\<lambda>c. c \<noteq> CHR ''.'') ?r"
    from dot have "?d \<noteq> []" by simp
    moreover from this have "hd ?d = CHR ''.''" using hd_dropWhile[of "\<lambda>c. c \<noteq> CHR ''.''" ?r] by simp
    ultimately have "?d = CHR ''.'' # tl ?d" by (cases ?d) simp_all
    then have "?r = takeWhile (\<lambda>c. c \<noteq> CHR ''.'') ?r @ CHR ''.'' # tl ?d"
      using takeWhile_dropWhile_id[of "\<lambda>c. c \<noteq> CHR ''.''" ?r] by simp
    then show ?thesis using that by blast
  qed
  have "rev p = ?r @ dropWhile (\<lambda>c. c \<noteq> CHR ''/'') (rev p)" by simp
  with r have "rev p = (takeWhile (\<lambda>c. c \<noteq> CHR ''.'') ?r @ [CHR ''.'']) @ rest @ dropWhile (\<lambda>c. c \<noteq> CHR ''/'') (rev p)"
    by (metis append.assoc append_Cons append_Nil)
  moreover have "rev (Ext p) = takeWhile (\<lambda>c. c \<noteq> CHR ''.'') ?r @ [CHR ''.'']"
    using dot by (simp add: Ext_def Let_def)
  ultimately show ?thesis unfolding HasSuffix_def by (metis starts_with_append)
qed

lemma TrimSuffix_Ext_shorter:
  "Ext p \<noteq> [] \<Longrightarrow> length (TrimSuffix p (CHR ''.'' # tl (Ext p))) < length p"
proof -
  assume a: "Ext p \<noteq> []"
  then have e: "CHR ''.'' # tl (Ext p) = Ext p" by (auto simp: Ext_def Let_def split: if_splits)
  from Ext_suffix[OF a] have "HasSuffix p (Ext p)" .
  moreover have "p \<noteq> []" using a by (auto simp: Ext_def)
  ultimately show ?thesis using a by (simp add: e TrimSuffix_def)
qed

function removeDuplicateExt :: "string \<Rightarrow> string" where
  "removeDuplicateExt filename =
     (let ext = Ext filename in
      if ext = [] then filename
      else (let ext' = tl ext;
                base = TrimSuffix filename (CHR ''.'' # ext')
            in if HasSuffix base (CHR ''.'' # ext')
               then removeDuplicateExt base
               else filename))"
  by pat_completeness auto
termination
  by (relation "measure length") (auto simp: TrimSuffix_Ext_shorter)

declare removeDuplicateExt.simps [simp del]

text \<open>
  What \<open>downloadResource\<close> calls outside the repository: \<open>url.Parse\<close> (here giving
  the path of the URL), \<open>filepath.Base\<close> and \<open>filepath.Join\<close>, and the outcome of each
  step that can fail: building the request, the HTTP exchange (the status and the body,
  or a transport error), \<open>MkdirAll\<close>, \<open>Create\<close> and \<open>Copy\<close>.
\<close>

record os =
  urlPath :: "string \<Rightarrow> string option"
  Base :: "string \<Rightarrow> string"
  Join :: "string \<Rightarrow> string \<Rightarrow> string"
  newRequestFails :: "string \<Rightarrow> bool"
  httpDo :: "string \<Rightarrow> (nat \<times> string) option"
  mkdirAllFails :: "string \<Rightarrow> bool"
  createFails :: "string \<Rightarrow> bool"
  copyFails :: "string \<Rightarrow> bool"

text \<open>
  The file system and the network as the downloader sees them: the files with their
  contents, the directories, the paths on which \<open>Stat\<close> fails for another reason than
  absence, and the requests sent so far.
\<close>

record world =
  files :: "(string \<times> string) list"
  dirs :: "string list"
  unreadable :: "string list"
  requests :: "string list"

datatype stat_result = StatOK | StatNotExist | StatOtherError

definition Stat :: "world \<Rightarrow> string \<Rightarrow> stat_result" where
  "Stat w p =
     (if p \<in> set (unreadable w) then StatOtherError
      else if map_of (files w) p \<noteq> None \<or> p \<in> set (dirs w) then StatOK
      else StatNotExist)"

text \<open>
  The local path \<open>outPath\<close> that \<open>downloadResource\<close> computes from the path of the URL.
  Every call reads the clock for itself: \<open>nanos\<close> is what \<open>time.Now().UnixNano()\<close> gives
  in this call, and it names the file when the path of the URL has no last segment.
\<close>

definition out_path :: "os \<Rightarrow> int \<Rightarrow> string \<Rightarrow> string \<Rightarrow> string" where
  "out_path os nanos path saveDir =
     (let filename0 = Base os path;
          filename = (if filename0 = [] \<or> filename0 = ''/'' then Itoa nanos else filename0)
      in Join os saveDir (removeDuplicateExt filename))"

text \<open>
  \<open>downloadResource\<close> returns the local path and the error, and the world as it leaves
  it. A copy that fails leaves the created file behind, here with no content.
\<close>

definition downloadResource ::
  "os \<Rightarrow> world \<Rightarrow> int \<Rightarrow> string \<Rightarrow> string \<Rightarrow> (string \<times> error option) \<times> world"
where
  "downloadResource os w nanos rawURL saveDir =
     (case urlPath os rawURL of
        None \<Rightarrow> (([], Some (Err ''parse'')), w)
      | Some path \<Rightarrow>
          (let outPath = out_path os nanos path saveDir in
           if Stat w outPath \<noteq> StatNotExist then ((outPath, None), w)
           else if newRequestFails os rawURL then (([], Some (Err ''request'')), w)
           else
             (let w1 = w\<lparr>requests := requests w @ [rawURL]\<rparr> in
              case httpDo os rawURL of
                None \<Rightarrow> (([], Some (Err ''do'')), w1)
              | Some (status, body) \<Rightarrow>
                  if status \<noteq> 200 then (([], Some (Err ''bad status'')), w1)
                  else
                    (let saveDir' = (if saveDir = [] then ''./'' else saveDir) in
                     if mkdirAllFails os saveDir' then (([], Some (Err ''mkdir'')), w1)
                     else
                       (let w2 = w1\<lparr>dirs := dirs w1 @ [saveDir']\<rparr> in
                        if createFails os outPath then (([], Some (Err ''create'')), w2)
                        else if copyFails os rawURL
                        then (([], Some (Err ''copy'')),
                              w2\<lparr>files := AList.update outPath [] (files w2)\<rparr>)
                        else ((outPath, None),
                              w2\<lparr>files := AList.update outPath body (files w2)\<rparr>))))))"

text \<open>\<open>GetResultStringArray\<close> called with one key, as \<open>DownloadResults\<close> calls it.\<close>

definition GetResultStringArray :: "gomap \<Rightarrow> string \<Rightarrow> string list" where
  "GetResultStringArray r key =
     (case map_of r key of
        None \<Rightarrow> []
      | Some (VStrs i) \<Rightarrow> i
      | Some (VStr a) \<Rightarrow> [a]
      | Some (VArr it) \<Rightarrow> filter (\<lambda>v. v \<noteq> []) (map safeString it)
      | Some v \<Rightarrow> (if safeString v \<noteq> [] then [safeString v] else []))"

text \<open>
  The context of a call is cancelled at some point or never, and stays cancelled:
  \<open>Some k\<close> is a context under which the first \<open>k\<close> calls of \<open>Acquire\<close> succeed and
  every later one returns the error of the context; \<open>None\<close> is a context that is not
  cancelled during the call.
\<close>

definition acquire_ok :: "nat option \<Rightarrow> nat \<Rightarrow> bool" where
  "acquire_ok ctx i = (case ctx of None \<Rightarrow> True | Some k \<Rightarrow> i < k)"

text \<open>
  One worker: the goroutine started for index \<open>i\<close>. It downloads its URL and writes
  the path, empty after an error, into its slot of \<open>downloadList\<close>. \<open>clock i\<close> is the
  time that the download of this worker reads.
\<close>

definition worker ::
  "os \<Rightarrow> (nat \<Rightarrow> int) \<Rightarrow> string list \<Rightarrow> string \<Rightarrow> nat \<Rightarrow> string list \<times> world
     \<Rightarrow> string list \<times> world"
where
  "worker os clock urlResults dir i st =
     (case st of
        (downloadList, w) \<Rightarrow>
          (case downloadResource os w (clock i) (urlResults ! i) dir of
             ((p, err), w') \<Rightarrow> (downloadList[i := p], w')))"

text \<open>
  The block \<open>if rule.Download\<close> of \<open>DownloadResults\<close>. The loop adds one to the wait
  group for every URL and starts a worker only when \<open>Acquire\<close> succeeds; after a failed
  \<open>Acquire\<close> it goes on to the next URL. The workers run concurrently: \<open>sched\<close> is the
  order in which their downloads happen, each taken as one step (the semaphore
  restricts the orders that can occur to some of these). \<open>wg.Wait()\<close> returns when every
  addition has been matched by the \<open>Done\<close> of a worker; \<open>None\<close> is a call that waits for
  ever.
\<close>

definition download_block ::
  "os \<Rightarrow> (nat \<Rightarrow> int) \<Rightarrow> nat option \<Rightarrow> nat list \<Rightarrow> gomap \<Rightarrow> string \<Rightarrow> string \<Rightarrow> world
     \<Rightarrow> (gomap \<times> world) option"
where
  "download_block os clock ctx sched r name dir w =
     (let urlResults = GetResultStringArray r name;
          added = length urlResults;
          started = filter (\<lambda>i. i < length urlResults \<and> acquire_ok ctx i) sched;
          (downloadList, w') =
             fold (worker os clock urlResults dir) started (replicate (length urlResults) [], w)
      in if length started = added
         then Some (AList.update name (VStrs downloadList) r, w')
         else None)"

section \<open>Rule files\<close>

text \<open>
  A Go slice is nil or holds elements, possibly none. The evaluator takes the length of
  \<open>Children\<close> and \<open>Transforms\<close> and ranges over them, which does not tell a nil slice
  from an empty one, so a \<open>rule\<close> above keeps the elements only. The codecs do tell
  them apart, and so does \<open>reflect.DeepEqual\<close>, with which the tests of the repository
  compare a list of rules with the list read back. \<open>extraction_rule\<close> is
  \<open>ExtractionRule\<close> with its slices, and \<open>rule_of\<close> the rule that the evaluator
  reads in it.
\<close>

datatype 'a slice = NilSlice | Slice "'a list"

fun elems :: "'a slice \<Rightarrow> 'a list" where
  "elems NilSlice = []"
| "elems (Slice xs) = xs"

datatype extraction_rule =
  ExtractionRule (rName: string) (rSelector: string) (rAttr: string) (rMultiple: bool)
       (rDownload: bool) (rVisit: bool) (rFlatten: bool) (rSaveDir: string)
       (rChildren: "extraction_rule slice") (rTransforms: "transform slice")

text \<open>An element of a slice is smaller than the slice.\<close>

lemma size_slice_estimation [termination_simp]:
  assumes "z \<in> set_slice s"
  shows "f z < Suc (size_slice f s)"
proof (cases s)
  case NilSlice
  with assms show ?thesis by simp
next
  case (Slice xs)
  with assms have "z \<in> set xs" by simp
  then have "f z \<le> size_list f xs" by (rule size_list_estimation') simp
  with Slice show ?thesis by simp
qed

lemma set_elems: "set (elems s) = set_slice s"
  by (cases s) simp_all

lemma size_elems_estimation [termination_simp]:
  "z \<in> set (elems s) \<Longrightarrow> f z < Suc (size_slice f s)"
  by (simp add: set_elems size_slice_estimation)

fun rule_of :: "extraction_rule \<Rightarrow> rule" where
  "rule_of (ExtractionRule n s a m d v f sd cs ts) =
     Rule n s a m d v f sd (map rule_of (elems cs)) (elems ts)"

text \<open>
  The rules are written and read by \<open>encoding/json\<close>, \<open>yaml.v3\<close> and the BSON codec of
  the document store. Each of them turns a struct into a document of named fields and
  back, driven by the tags of the struct: the name of the field, and \<open>omitempty\<close>, which
  leaves an empty string, \<open>false\<close> or a slice of length zero out, nil or not. A field
  that is written holds \<open>null\<close> for a nil slice. A missing field reads as the zero
  value, which is nil for a slice; \<open>null\<close> reads as nil and a sequence as a slice that
  is not nil. A struct without a tag for a codec gets the lower-cased field name. The
  text of a string goes through the codec's own escaping, \<open>enc_str\<close> and \<open>dec_str\<close>.
\<close>

datatype doc = DNull | DBool bool | DStr string | DSeq "doc list" | DMap "(string \<times> doc) list"

datatype codec = JSON | YAML | BSON

record strings =
  enc_str :: "string \<Rightarrow> string"
  dec_str :: "string \<Rightarrow> string"

datatype field =
    FName | FSelector | FAttr | FMultiple | FDownload | FVisit | FFlatten | FSaveDir
  | FChildren | FTransforms | FMatch | FSplit | FReplace

text \<open>The tags of \<open>ExtractionRule\<close> and \<open>Transforms\<close>: the key and \<open>omitempty\<close>.\<close>

fun tag :: "codec \<Rightarrow> field \<Rightarrow> string \<times> bool" where
  "tag c FName = (''name'', False)"
| "tag c FSelector = (''selector'', False)"
| "tag c FAttr = (''attr'', True)"
| "tag c FMultiple = (''multiple'', True)"
| "tag c FDownload = (''download'', True)"
| "tag c FVisit = (''visit'', False)"
| "tag c FFlatten = (''flatten'', True)"
| "tag c FSaveDir = (''save_dir'', True)"
| "tag c FChildren = (''children'', True)"
| "tag c FTransforms = (''transforms'', True)"
| "tag c FMatch = (''match'', False)"
| "tag c FSplit = (''split'', False)"
| "tag c FReplace = (''replace'', False)"

definition put_str :: "codec \<Rightarrow> strings \<Rightarrow> field \<Rightarrow> string \<Rightarrow> (string \<times> doc) list" where
  "put_str c x f v =
     (if snd (tag c f) \<and> v = [] then [] else [(fst (tag c f), DStr (enc_str x v))])"

definition put_bool :: "codec \<Rightarrow> field \<Rightarrow> bool \<Rightarrow> (string \<times> doc) list" where
  "put_bool c f v = (if snd (tag c f) \<and> \<not> v then [] else [(fst (tag c f), DBool v)])"

definition put_seq :: "codec \<Rightarrow> field \<Rightarrow> doc slice \<Rightarrow> (string \<times> doc) list" where
  "put_seq c f v =
     (if snd (tag c f) \<and> length (elems v) = 0 then []
      else [(fst (tag c f), case v of NilSlice \<Rightarrow> DNull | Slice ds \<Rightarrow> DSeq ds)])"

definition encode_transform :: "codec \<Rightarrow> strings \<Rightarrow> transform \<Rightarrow> doc" where
  "encode_transform c x t =
     DMap (put_str c x FMatch (Match t) @ put_bool c FSplit (Split t)
           @ put_str c x FReplace (Replace t))"

fun encode_rule :: "codec \<Rightarrow> strings \<Rightarrow> extraction_rule \<Rightarrow> doc" where
  "encode_rule c x (ExtractionRule name selector attr multiple download visit flatten saveDir
                      children transforms) =
     DMap (put_str c x FName name @ put_str c x FSelector selector @ put_str c x FAttr attr
           @ put_bool c FMultiple multiple @ put_bool c FDownload download
           @ put_bool c FVisit visit @ put_bool c FFlatten flatten
           @ put_str c x FSaveDir saveDir
           @ put_seq c FChildren (map_slice (encode_rule c x) children)
           @ put_seq c FTransforms (map_slice (encode_transform c x) transforms))"


text \<open>
  The list of rules is a slice itself, written without \<open>omitempty\<close>: a nil list is
  \<open>null\<close> for \<open>encoding/json\<close> and for the BSON codec, and the empty sequence for
  \<open>yaml.v3\<close>.
\<close>

definition encode_rules :: "codec \<Rightarrow> strings \<Rightarrow> extraction_rule slice \<Rightarrow> doc" where
  "encode_rules c x rules =
     (case rules of
        NilSlice \<Rightarrow> (if c = YAML then DSeq [] else DNull)
      | Slice rs \<Rightarrow> DSeq (map (encode_rule c x) rs))"

text \<open>
  Decoding starts from the zero value and goes through the fields of the document in
  turn; a key that is no field of the struct is skipped, and a value of the wrong kind
  is an error.
\<close>

definition zero_transform :: transform where
  "zero_transform = \<lparr>Match = [], Split = False, Replace = []\<rparr>"

definition zero_rule :: extraction_rule where
  "zero_rule = ExtractionRule [] [] [] False False False False [] NilSlice NilSlice"

fun decode_transform_fields ::
  "codec \<Rightarrow> strings \<Rightarrow> (string \<times> doc) list \<Rightarrow> transform \<Rightarrow> transform option"
where
  "decode_transform_fields c x [] t = Some t"
| "decode_transform_fields c x ((k, d) # kvs) t =
     (if k = fst (tag c FMatch) then
        (case d of DStr s \<Rightarrow> decode_transform_fields c x kvs (t\<lparr>Match := dec_str x s\<rparr>)
                 | _ \<Rightarrow> None)
      else if k = fst (tag c FSplit) then
        (case d of DBool b \<Rightarrow> decode_transform_fields c x kvs (t\<lparr>Split := b\<rparr>)
                 | _ \<Rightarrow> None)
      else if k = fst (tag c FReplace) then
        (case d of DStr s \<Rightarrow> decode_transform_fields c x kvs (t\<lparr>Replace := dec_str x s\<rparr>)
                 | _ \<Rightarrow> None)
      else decode_transform_fields c x kvs t)"

definition decode_transform :: "codec \<Rightarrow> strings \<Rightarrow> doc \<Rightarrow> transform option" where
  "decode_transform c x d =
     (case d of DMap kvs \<Rightarrow> decode_transform_fields c x kvs zero_transform | _ \<Rightarrow> None)"

fun decode_all :: "('a \<Rightarrow> 'b option) \<Rightarrow> 'a list \<Rightarrow> 'b list option" where
  "decode_all f [] = Some []"
| "decode_all f (d # ds) =
     (case f d of
        None \<Rightarrow> None
      | Some r \<Rightarrow> (case decode_all f ds of None \<Rightarrow> None | Some rs \<Rightarrow> Some (r # rs)))"

fun decode_rule :: "codec \<Rightarrow> strings \<Rightarrow> doc \<Rightarrow> extraction_rule option"
  and decode_rule_list :: "codec \<Rightarrow> strings \<Rightarrow> doc list \<Rightarrow> extraction_rule list option"
  and decode_rule_fields ::
    "codec \<Rightarrow> strings \<Rightarrow> (string \<times> doc) list \<Rightarrow> extraction_rule \<Rightarrow> extraction_rule option"
where
  "decode_rule c x (DMap kvs) = decode_rule_fields c x kvs zero_rule"
| "decode_rule c x DNull = None"
| "decode_rule c x (DBool b) = None"
| "decode_rule c x (DStr s) = None"
| "decode_rule c x (DSeq ds) = None"
| "decode_rule_list c x [] = Some []"
| "decode_rule_list c x (d # ds) =
     (case decode_rule c x d of
        None \<Rightarrow> None
      | Some r \<Rightarrow>
          (case decode_rule_list c x ds of None \<Rightarrow> None | Some rs \<Rightarrow> Some (r # rs)))"
| "decode_rule_fields c x [] r = Some r"
| "decode_rule_fields c x ((k, d) # kvs) r =
     (if k = fst (tag c FName) then
        (case d of
           DStr s \<Rightarrow>
             decode_rule_fields c x kvs
               (ExtractionRule (dec_str x s) (rSelector r) (rAttr r) (rMultiple r) (rDownload r) (rVisit r)
                  (rFlatten r) (rSaveDir r) (rChildren r) (rTransforms r))
         | _ \<Rightarrow> None)
      else if k = fst (tag c FSelector) then
        (case d of
           DStr s \<Rightarrow>
             decode_rule_fields c x kvs
               (ExtractionRule (rName r) (dec_str x s) (rAttr r) (rMultiple r) (rDownload r) (rVisit r)
                  (rFlatten r) (rSaveDir r) (rChildren r) (rTransforms r))
         | _ \<Rightarrow> None)
      else if k = fst (tag c FAttr) then
        (case d of
           DStr s \<Rightarrow>
             decode_rule_fields c x kvs
               (ExtractionRule (rName r) (rSelector r) (dec_str x s) (rMultiple r) (rDownload r) (rVisit r)
                  (rFlatten r) (rSaveDir r) (rChildren r) (rTransforms r))
         | _ \<Rightarrow> None)
      else if k = fst (tag c FMultiple) then
        (case d of
           DBool b \<Rightarrow>
             decode_rule_fields c x kvs
               (ExtractionRule (rName r) (rSelector r) (rAttr r) b (rDownload r) (rVisit r)
                  (rFlatten r) (rSaveDir r) (rChildren r) (rTransforms r))
         | _ \<Rightarrow> None)
      else if k = fst (tag c FDownload) then
        (case d of
           DBool b \<Rightarrow>
             decode_rule_fields c x kvs
               (ExtractionRule (rName r) (rSelector r) (rAttr r) (rMultiple r) b (rVisit r)
                  (rFlatten r) (rSaveDir r) (rChildren r) (rTransforms r))
         | _ \<Rightarrow> None)
      else if k = fst (tag c FVisit) then
        (case d of
           DBool b \<Rightarrow>
             decode_rule_fields c x kvs
               (ExtractionRule (rName r) (rSelector r) (rAttr r) (rMultiple r) (rDownload r) b
                  (rFlatten r) (rSaveDir r) (rChildren r) (rTransforms r))
         | _ \<Rightarrow> None)
      else if k = fst (tag c FFlatten) then
        (case d of
           DBool b \<Rightarrow>
             decode_rule_fields c x kvs
               (ExtractionRule (rName r) (rSelector r) (rAttr r) (rMultiple r) (rDownload r) (rVisit r)
                  b (rSaveDir r) (rChildren r) (rTransforms r))
         | _ \<Rightarrow> None)
      else if k = fst (tag c FSaveDir) then
        (case d of
           DStr s \<Rightarrow>
             decode_rule_fields c x kvs
               (ExtractionRule (rName r) (rSelector r) (rAttr r) (rMultiple r) (rDownload r) (rVisit r)
                  (rFlatten r) (dec_str x s) (rChildren r) (rTransforms r))
         | _ \<Rightarrow> None)
      else if k = fst (tag c FChildren) then
        (case d of
           DSeq ds \<Rightarrow>
             (case decode_rule_list c x ds of
                None \<Rightarrow> None
              | Some cs \<Rightarrow>
                  decode_rule_fields c x kvs
                    (ExtractionRule (rName r) (rSelector r) (rAttr r) (rMultiple r) (rDownload r) (rVisit r)
                  (rFlatten r) (rSaveDir r) (Slice cs) (rTransforms r)))
         | DNull \<Rightarrow>
             decode_rule_fields c x kvs
               (ExtractionRule (rName r) (rSelector r) (rAttr r) (rMultiple r) (rDownload r) (rVisit r)
                  (rFlatten r) (rSaveDir r) NilSlice (rTransforms r))
         | _ \<Rightarrow> None)
      else if k = fst (tag c FTransforms) then
        (case d of
           DSeq ds \<Rightarrow>
             (case decode_all (decode_transform c x) ds of
                None \<Rightarrow> None
              | Some ts \<Rightarrow>
                  decode_rule_fields c x kvs
                    (ExtractionRule (rName r) (rSelector r) (rAttr r) (rMultiple r) (rDownload r) (rVisit r)
                  (rFlatten r) (rSaveDir r) (rChildren r) (Slice ts)))
         | DNull \<Rightarrow>
             decode_rule_fields c x kvs
               (ExtractionRule (rName r) (rSelector r) (rAttr r) (rMultiple r) (rDownload r) (rVisit r)
                  (rFlatten r) (rSaveDir r) (rChildren r) NilSlice)
         | _ \<Rightarrow> None)
      else decode_rule_fields c x kvs r)"

definition decode_rules :: "codec \<Rightarrow> strings \<Rightarrow> doc \<Rightarrow> extraction_rule slice option" where
  "decode_rules c x d =
     (case d of
        DSeq ds \<Rightarrow> map_option Slice (decode_rule_list c x ds)
      | DNull \<Rightarrow> Some NilSlice
      | _ \<Rightarrow> None)"

text \<open>
  \<open>SaveRulesToJSON\<close> with \<open>LoadRulesFromJSON\<close> and \<open>SaveRulesToYAML\<close> with
  \<open>LoadRulesFromYAML\<close> write and read the list of rules as one document. The document
  store keeps the list under the key \<open>rules\<close> of a document with \<open>_id\<close> and \<open>ts\<close>.
\<close>

definition SaveRules :: "codec \<Rightarrow> strings \<Rightarrow> extraction_rule slice \<Rightarrow> doc" where
  "SaveRules c x rules = encode_rules c x rules"

definition LoadRules :: "codec \<Rightarrow> strings \<Rightarrow> doc \<Rightarrow> extraction_rule slice option" where
  "LoadRules c x d = decode_rules c x d"

definition SaveRulesToMongo :: "strings \<Rightarrow> string \<Rightarrow> string \<Rightarrow> extraction_rule slice \<Rightarrow> doc" where
  "SaveRulesToMongo x key ts rules =
     DMap [(''_id'', DStr key), (''rules'', encode_rules BSON x rules), (''ts'', DStr ts)]"

definition LoadRulesFromMongo :: "strings \<Rightarrow> doc \<Rightarrow> extraction_rule slice option" where
  "LoadRulesFromMongo x d =
     (case d of
        DMap kvs \<Rightarrow>
          (case map_of kvs ''rules'' of
             None \<Rightarrow> Some NilSlice
           | Some rs \<Rightarrow> decode_rules BSON x rs)
      | _ \<Rightarrow> None)"

section \<open>A page and a pattern engine for the examples\<close>

text \<open>
  The contract of package \<open>regexp\<close> that the transform pipeline relies on: where a
  pattern does not occur, \<open>Split\<close> gives the string as its only piece and
  \<open>ReplaceAllString\<close> gives the string back.
\<close>

definition regexp_contract :: "('n, 'r) env \<Rightarrow> bool" where
  "regexp_contract e =
     (\<forall>r s rep. \<not> reMatch e r s \<longrightarrow> reSplit e r s = [s] \<and> reReplaceAll e r s rep = s)"

text \<open>
  An engine for two shapes of pattern, on which it agrees with \<open>regexp\<close>: a literal
  text anchored at the start by \<open>^\<close>, and a single literal character. It compiles
  nothing else.
\<close>

datatype rx = RxPrefix string | RxChar char

definition demo_compile :: "string \<Rightarrow> rx option" where
  "demo_compile p =
     (case p of
        [] \<Rightarrow> None
      | c # cs \<Rightarrow>
          if c = CHR ''^'' then Some (RxPrefix cs)
          else if cs = [] then Some (RxChar c) else None)"

fun demo_match :: "rx \<Rightarrow> string \<Rightarrow> bool" where
  "demo_match (RxPrefix p) s = starts_with p s"
| "demo_match (RxChar c) s = (c \<in> set s)"

fun demo_split :: "rx \<Rightarrow> string \<Rightarrow> string list" where
  "demo_split (RxPrefix p) s = (if starts_with p s then [[], drop (length p) s] else [s])"
| "demo_split (RxChar c) s = split_on c s"

fun demo_replace :: "rx \<Rightarrow> string \<Rightarrow> string \<Rightarrow> string" where
  "demo_replace (RxPrefix p) s rep = (if starts_with p s then rep @ drop (length p) s else s)"
| "demo_replace (RxChar c) s rep = concat (map (\<lambda>x. if x = c then rep else [x]) s)"

text \<open>
  A page with two links below its root \<open>0\<close>, the first with an \<open>href\<close>, read
  against the base \<open>http://h\<close> by a fetcher that reaches no other page.
\<close>

definition demo_env :: "(nat, rx) env" where
  "demo_env = \<lparr>
     Find = (\<lambda>s sel. if s = [0] \<and> sel = ''a'' then [1, 2] else []),
     AttrOf = (\<lambda>n a. if n = 1 \<and> a = ''href'' then Some ''/x'' else None),
     TextOf = (\<lambda>n. if n = 1 then '' one '' else if n = 2 then ''two, 2'' else []),
     Parse = (\<lambda>raw. Some (''http://h'' @ raw)),
     Fetch = (\<lambda>u. None),
     reCompile = demo_compile,
     reSplit = demo_split,
     reReplaceAll = demo_replace,
     reMatch = demo_match \<rparr>"

text \<open>
  A reader of dotted paths, on which it agrees with gjson: a key of an object, or the
  decimal index of an array element, at every step.
\<close>

fun get_keys :: "val \<Rightarrow> string list \<Rightarrow> val option" where
  "get_keys v [] = Some v"
| "get_keys (VMap m) (k # ks) =
     (case map_of m k of None \<Rightarrow> None | Some v \<Rightarrow> get_keys v ks)"
| "get_keys (VArr xs) (k # ks) =
     (if k \<noteq> [] \<and> list_all is_digit k \<and> dec_val k < int (length xs)
      then get_keys (xs ! nat (dec_val k)) ks else None)"
| "get_keys v (k # ks) = None"

definition demo_get :: "val \<Rightarrow> string \<Rightarrow> val option" where
  "demo_get v path = get_keys v (split_on CHR ''.'' path)"

definition demo_entropy :: entropy where
  "demo_entropy =
     \<lparr>uuid = ''6ba7b810-9dad-11d1-80b4-00c04fd430c8'', hex16 = ''000102030405060708090a0b0c0d0e0f'',
      base64_18 = ''AAECAwQFBgcICQoLDA0ODxAR'', unix = 1700000000, now = ''2023-11-14 22:13:20''\<rparr>"

text \<open>
  A host \<open>http://h\<close> that serves \<open>/a.jpg\<close> and its root \<open>/\<close>, answers 404 for
  \<open>/b.jpg\<close> and fails for anything else, with paths whose last element follows the
  last slash.
\<close>

definition demo_os :: os where
  "demo_os = \<lparr>
     urlPath = (\<lambda>u. if starts_with ''http://h'' u then Some (drop 8 u) else None),
     Base = (\<lambda>p. if p = [] then ''.'' else if p = ''/'' then ''/''
                else last (split_on CHR ''/'' p)),
     Join = (\<lambda>d f. d @ ''/'' @ f),
     newRequestFails = (\<lambda>u. False),
     httpDo = (\<lambda>u. if u = ''http://h/a.jpg'' then Some (200, ''AAAA'')
                   else if u = ''http://h/b.jpg'' then Some (404, [])
                   else if u = ''http://h/'' then Some (200, ''page'') else None),
     mkdirAllFails = (\<lambda>d. False),
     createFails = (\<lambda>p. False),
     copyFails = (\<lambda>u. False) \<rparr>"

text \<open>
  The text of a string through \<open>encoding/json\<close>, for strings of ASCII characters and
  the byte \<open>0xFF\<close>, which no UTF-8 text contains: \<open>Marshal\<close> writes the replacement
  character \<open>U+FFFD\<close> for it, which reads back as the bytes \<open>EF BF BD\<close>.
\<close>

definition json_text :: strings where
  "json_text =
     \<lparr>enc_str = (\<lambda>s. concat (map (\<lambda>c. if c = CHR 0xFF then [CHR 0xEF, CHR 0xBF, CHR 0xBD]
                                        else [c]) s)),
      dec_str = (\<lambda>s. s)\<rparr>"

definition empty_world :: world where
  "empty_world = \<lparr>files = [], dirs = [], unreadable = [], requests = []\<rparr>"

section \<open>Notions for the statements\<close>

text \<open>A value that is an array.\<close>

definition is_array :: "val \<Rightarrow> bool" where
  "is_array v = (case v of VArr xs \<Rightarrow> True | _ \<Rightarrow> False)"

text \<open>
  A collapse of one level: every element that is an array is replaced by its elements,
  in order.
\<close>

definition flatten_one_level :: "val list \<Rightarrow> val list" where
  "flatten_one_level vals =
     concat (map (\<lambda>v. case v of VArr nested \<Rightarrow> nested | _ \<Rightarrow> [v]) vals)"

text \<open>A rule tree without its transforms, and a tree in which every rule has some.\<close>

fun strip_transforms :: "rule \<Rightarrow> rule" where
  "strip_transforms (Rule n s a m d v f sd cs ts) =
     Rule n s a m d v f sd (map strip_transforms cs) []"

fun has_transforms :: "rule \<Rightarrow> bool" where
  "has_transforms (Rule n s a m d v f sd cs ts) = (ts \<noteq> [] \<and> list_all has_transforms cs)"

text \<open>
  The scopes against which the children of a rule are evaluated when the rule is
  evaluated against \<open>sel\<close>. Without \<open>Multiple\<close> it is the first match, with
  \<open>Multiple\<close> every match in turn; with \<open>Visit\<close> it is, for every match, the document
  behind its link, when the link is there, resolves and is fetched.
\<close>

definition visit_scopes :: "('n, 'r) env \<Rightarrow> rule \<Rightarrow> 'n list \<Rightarrow> 'n list list" where
  "visit_scopes e rule s =
     (if Attr rule \<noteq> [] \<and> Visit rule \<and> selAttr e s (Attr rule) \<noteq> []
      then (case Parse e (selAttr e s (Attr rule)) of
              Some u2 \<Rightarrow> (case Fetch e u2 of Some doc \<Rightarrow> [doc] | None \<Rightarrow> [])
            | None \<Rightarrow> [])
      else [])"

definition match_scopes :: "('n, 'r) env \<Rightarrow> rule \<Rightarrow> 'n \<Rightarrow> 'n list list" where
  "match_scopes e rule n = (if Visit rule then visit_scopes e rule [n] else [[n]])"

definition child_scopes :: "('n, 'r) env \<Rightarrow> rule \<Rightarrow> 'n list \<Rightarrow> 'n list list" where
  "child_scopes e rule sel =
     (if Multiple rule then concat (map (match_scopes e rule) (Find e sel (Selector rule)))
      else [take 1 (Find e sel (Selector rule))])"

text \<open>
  The rule tree after it has been evaluated against each of the scopes, in terms of
  the tree before: a rule that is evaluated at least once has the default written into
  an empty \<open>Transforms\<close>, and its children are evaluated against their scopes; a rule
  that is never evaluated is as it was.
\<close>

fun evaluated :: "('n, 'r) env \<Rightarrow> 'n list list \<Rightarrow> rule \<Rightarrow> rule" where
  "evaluated e scopes (Rule n s a m d v f sd cs ts) =
     (if scopes = [] then Rule n s a m d v f sd cs ts
      else Rule n s a m d v f sd
             (map (evaluated e (concat (map (child_scopes e (Rule n s a m d v f sd cs ts)) scopes))) cs)
             (if ts = [] then default_transforms else ts))"

text \<open>
  A directive after a remap: its \<open>ArrayObjMap\<close> has been through
  \<open>remapSingleObject\<close> when there are sub-mappings and the key selects at least one
  value.
\<close>

definition mapping_after :: "(val \<Rightarrow> string \<Rightarrow> val option) \<Rightarrow> val \<Rightarrow> mapping \<Rightarrow> mapping" where
  "mapping_after get result d =
     (if ArrayObjMap d \<noteq> [] \<and> gjson_each (get result (Key d)) \<noteq> []
      then Mapping (Object d) (Key d) (To d) (Format d) (IsArray d) (IsObject d)
             (map normalize_mapping (ArrayObjMap d))
      else d)"

text \<open>
  A path is blocked in a map when walking it meets, before its last key, a key bound to
  a value that is not a map.
\<close>

fun blocked :: "gomap \<Rightarrow> string list \<Rightarrow> bool" where
  "blocked m [] = False"
| "blocked m [key] = False"
| "blocked m (key # k2 # ks) =
     (case map_of m key of
        None \<Rightarrow> False
      | Some (VMap sub) \<Rightarrow> blocked sub (k2 # ks)
      | Some _ \<Rightarrow> True)"

text \<open>The strings of a rule tree, and a codec that gives every one of them back.\<close>

definition transform_strings :: "transform \<Rightarrow> string set" where
  "transform_strings t = {Match t, Replace t}"

fun rule_strings :: "extraction_rule \<Rightarrow> string set" where
  "rule_strings (ExtractionRule n s a m d v f sd cs ts) =
     {n, s, a, sd} \<union> (\<Union>c \<in> set (elems cs). rule_strings c)
       \<union> (\<Union>t \<in> set (elems ts). transform_strings t)"

definition carries :: "strings \<Rightarrow> extraction_rule slice \<Rightarrow> bool" where
  "carries x rules =
     (\<forall>r \<in> set (elems rules). \<forall>s \<in> rule_strings r. dec_str x (enc_str x s) = s)"

text \<open>
  What the codecs make of a rule: a slice of length zero comes back nil, at every node.
  A nil list of rules comes back empty from \<open>yaml.v3\<close>. \<open>no_empty_slice\<close> holds of a
  tree in which every slice is nil or has an element.
\<close>

definition nil_if_empty :: "'a slice \<Rightarrow> 'a slice" where
  "nil_if_empty s = (if length (elems s) = 0 then NilSlice else s)"

fun read_back :: "extraction_rule \<Rightarrow> extraction_rule" where
  "read_back (ExtractionRule n s a m d v f sd cs ts) =
     ExtractionRule n s a m d v f sd (nil_if_empty (map_slice read_back cs)) (nil_if_empty ts)"

definition read_back_rules :: "codec \<Rightarrow> extraction_rule slice \<Rightarrow> extraction_rule slice" where
  "read_back_rules c rules =
     (case rules of
        NilSlice \<Rightarrow> (if c = YAML then Slice [] else NilSlice)
      | Slice rs \<Rightarrow> Slice (map read_back rs))"

fun no_empty_slice :: "extraction_rule \<Rightarrow> bool" where
  "no_empty_slice (ExtractionRule n s a m d v f sd cs ts) =
     (cs \<noteq> Slice [] \<and> ts \<noteq> Slice [] \<and> list_all no_empty_slice (elems cs))"

text \<open>The local path of a URL, empty when the URL does not parse.\<close>

definition local_path :: "os \<Rightarrow> int \<Rightarrow> string \<Rightarrow> string \<Rightarrow> string" where
  "local_path os nanos rawURL saveDir =
     (case urlPath os rawURL of None \<Rightarrow> [] | Some path \<Rightarrow> out_path os nanos path saveDir)"

text \<open>
  The key and the value that the last step of an assignment writes: an array with a
  usable bracketed index is written as the selected element under the key without the
  brackets, anything else under the key as it is.
\<close>

definition leaf_write :: "string \<Rightarrow> val \<Rightarrow> string \<times> val" where
  "leaf_write key v =
     (case v of
        VArr xs \<Rightarrow>
          (case extractNumberFromBrackets key of
             None \<Rightarrow> (key, v)
           | Some n \<Rightarrow> if n > int (length xs) then (key, v) else (strip_brackets key, xs ! nat n))
      | _ \<Rightarrow> (key, v))"

section \<open>Path assignment: bracketed indices\<close>

lemma bracket_example_in_range:
  "complexPathing [] ''a.b[1]'' (VArr [x, y, z]) = Inr [(''a'', VMap [(''b'', y)])]"
  by (simp add: complexPathing_def assign_last_def extractNumberFromBrackets_def
      bracket_at_def is_digit_def atoi_digits_def dec_val_def digit_val_def
      strip_brackets_def)

lemma bracket_example_beyond_length:
  "complexPathing [] ''a.b[9]'' (VArr [x, y, z]) =
     Inr [(''a'', VMap [(''b[9]'', VArr [x, y, z])])]"
  by (simp add: complexPathing_def assign_last_def extractNumberFromBrackets_def
      bracket_at_def is_digit_def atoi_digits_def dec_val_def digit_val_def)

text \<open>
  C2. A path that ends in a bracketed index \<open>k\<close> stores element \<open>k\<close> of the array
  when \<open>k\<close> is an index, and is meant to store the whole array under the bracketed key
  for every \<open>k\<close> from the length of the array on. The guard of \<open>complexPathing\<close> is
  \<open>n > len(v)\<close>, so the index equal to the length passes it and \<open>v[n]\<close> panics:
  assigning a three-element array at \<open>a.b[3]\<close> does not return a map.
\<close>

theorem complexPathing_index_at_length_panics:
  "complexPathing [] ''a.b[3]'' (VArr [x, y, z]) = Inl (IndexOutOfRange 3 3)"
  by (simp add: complexPathing_def assign_last_def extractNumberFromBrackets_def
      bracket_at_def is_digit_def atoi_digits_def dec_val_def digit_val_def)

section \<open>Rule evaluation: zero matches\<close>

lemma applyTransform_empty_string:
  "applyTransform e (VStr []) t = [VStr []]"
  by (simp add: applyTransform_def safeString_def)

lemma TrimSpace_Nil [simp]: "TrimSpace [] = []"
  by (simp add: TrimSpace_def)

lemma leaf_rule_zero_matches:
  assumes "Find e sel (Selector r) = []"
  shows "leaf_rule e sel r = (if Multiple r then VArr [] else VArr [VStr []])"
  using assms
  by (simp add: leaf_rule_def Let_def applyTransforms_def selAttr_def selText_def
      applyTransform_empty_string)

text \<open>
  C3. A leaf rule evaluated against a scope in which its selector matches nothing
  returns no error. With \<open>Multiple\<close> the result is the empty array. Without
  \<open>Multiple\<close> the claim asks for the empty scalar itself; the code returns what
  \<open>applyTransform\<close> returns, the one-element array that holds the empty string.
\<close>

theorem single_leaf_zero_matches_is_wrapped:
  assumes "length (Children r) = 0" and "Find e sel (Selector r) = []"
  shows "snd (applyRule e sel r) = Inr (if Multiple r then VArr [] else VArr [VStr []])"
proof -
  let ?r = "set_default_transforms r"
  have "Children ?r = []" "Selector ?r = Selector r" "Multiple ?r = Multiple r"
    using assms(1) by (simp_all add: set_default_transforms_def)
  then show ?thesis
    using assms(2) leaf_rule_zero_matches[of e sel ?r]
    by (simp add: applyRule.simps[of e sel r] Let_def)
qed

theorem single_leaf_zero_matches_witness:
  "length (Children (Rule ''title'' ''h1'' [] False False False False [] [] [])) = 0
    \<and> Find demo_env [0] (Selector (Rule ''title'' ''h1'' [] False False False False [] [] [])) = []
    \<and> snd (applyRule demo_env [0] (Rule ''title'' ''h1'' [] False False False False [] [] []))
        = Inr (VArr [VStr []])"
  using single_leaf_zero_matches_is_wrapped
    [of "Rule ''title'' ''h1'' [] False False False False [] [] []" demo_env "[0]"]
  by (simp add: demo_env_def)

section \<open>Flatten and the transform pipeline\<close>

lemma flattenList_id: "\<forall>v \<in> set vals. \<not> is_array v \<Longrightarrow> flattenList vals = vals"
  by (induction vals rule: flattenList.induct) (simp_all add: is_array_def)

lemma flatten_one_level_id: "\<forall>v \<in> set vals. \<not> is_array v \<Longrightarrow> flatten_one_level vals = vals"
  unfolding flatten_one_level_def
  by (induction vals) (auto simp: is_array_def split: val.splits)

lemma leaf_value_not_array: "\<not> is_array (leaf_value e rule n)"
  by (simp add: leaf_value_def is_array_def Let_def split: option.splits)

text \<open>Transforms that do not split give one value for each value they are applied to.\<close>

lemma transform_loop_no_split:
  "list_all (\<lambda>t. \<not> Split t) ts \<Longrightarrow> fst (transform_loop e ts out ss) = out"
  by (induction ts arbitrary: out ss) (auto split: option.splits)

lemma applyTransform_no_split:
  assumes "list_all (\<lambda>t. \<not> Split t) ts"
  shows "length (applyTransform e raw ts) = 1"
proof -
  obtain out ss' where l: "transform_loop e ts [] (safeString raw) = (out, ss')"
    by (metis prod.exhaust)
  with transform_loop_no_split[OF assms, of e "[]" "safeString raw"] have "out = []" by simp
  with l show ?thesis by (simp add: applyTransform_def Let_def)
qed

lemma applyTransforms_no_split:
  assumes "list_all (\<lambda>t. \<not> Split t) ts"
  shows "length (applyTransforms e vals ts) = length vals"
  by (induction vals) (simp_all add: applyTransforms_def applyTransform_no_split[OF assms])

text \<open>
  C4, as amended. For a leaf rule with \<open>Multiple\<close> and \<open>Flatten\<close>, the gathered values
  are those of the matched elements, one string each. \<open>flattenList\<close> agrees on them with
  a collapse of one level, and both leave the list as it is, with one entry for each
  matched element. The result of the rule is the transform pipeline applied to that
  list. Its length is the number of matched elements when no transform of the rule
  splits.
\<close>

theorem flatten_keeps_gathered_values:
  assumes "length (Children r) = 0" and "Multiple r" and "Flatten r"
  shows "flattenList (map (leaf_value e r) (Find e sel (Selector r)))
           = flatten_one_level (map (leaf_value e r) (Find e sel (Selector r)))
         \<and> flattenList (map (leaf_value e r) (Find e sel (Selector r)))
           = map (leaf_value e r) (Find e sel (Selector r))
         \<and> length (flattenList (map (leaf_value e r) (Find e sel (Selector r))))
           = length (Find e sel (Selector r))
         \<and> snd (applyRule e sel r)
           = Inr (VArr (applyTransforms e (map (leaf_value e r) (Find e sel (Selector r)))
                          (Transforms (set_default_transforms r))))
         \<and> (list_all (\<lambda>t. \<not> Split t) (Transforms (set_default_transforms r)) \<longrightarrow>
              length (applyTransforms e (map (leaf_value e r) (Find e sel (Selector r)))
                        (Transforms (set_default_transforms r)))
              = length (Find e sel (Selector r)))"
proof -
  let ?g = "map (leaf_value e r) (Find e sel (Selector r))"
  have sd: "leaf_value e (set_default_transforms r) = leaf_value e r"
    by (rule ext) (simp add: leaf_value_def set_default_transforms_def)
  have f: "Multiple (set_default_transforms r)" "Flatten (set_default_transforms r)"
    "Selector (set_default_transforms r) = Selector r" "Children (set_default_transforms r) = []"
    using assms by (simp_all add: set_default_transforms_def)
  have na: "\<forall>v \<in> set ?g. \<not> is_array v" by (simp add: leaf_value_not_array)
  have id: "flattenList ?g = ?g" by (rule flattenList_id[OF na])
  have one: "flatten_one_level ?g = ?g" by (rule flatten_one_level_id[OF na])
  have res: "snd (applyRule e sel r)
           = Inr (VArr (applyTransforms e ?g (Transforms (set_default_transforms r))))"
    using f id by (simp add: applyRule.simps[of e sel r] Let_def leaf_rule_def sd)
  show ?thesis using id one res by (simp add: applyTransforms_no_split)
qed

theorem flatten_keeps_gathered_values_witness:
  "length (Children (Rule ''t'' ''a'' [] True False False True [] [] [])) = 0
   \<and> Multiple (Rule ''t'' ''a'' [] True False False True [] [] [])
   \<and> Flatten (Rule ''t'' ''a'' [] True False False True [] [] [])
   \<and> Find demo_env [0] ''a'' = [1, 2]
   \<and> snd (applyRule demo_env [0] (Rule ''t'' ''a'' [] True False False True [] [] []))
       = Inr (VArr [VStr ''one'', VStr ''two, 2''])"
  using flatten_keeps_gathered_values
    [of "Rule ''t'' ''a'' [] True False False True [] [] []" demo_env "[0]"]
  by (simp add: demo_env_def leaf_value_def selText_def TrimSpace_def is_space_def
      set_default_transforms_def default_transforms_def applyTransforms_def applyTransform_def
      safeString_def demo_compile_def starts_with_def)

text \<open>
  C4 as stated fails on the length of the output: a transform that splits cuts the text
  of one matched element into two values, and two matched elements give three.
\<close>

theorem split_transform_length_counterexample:
  "Find demo_env [0] ''a'' = [1, 2]
   \<and> snd (applyRule demo_env [0]
            (Rule ''t'' ''a'' [] True False False True [] []
               [\<lparr>Match = '','', Split = True, Replace = []\<rparr>]))
       = Inr (VArr [VStr ''one'', VStr ''two'', VStr '' 2''])"
  by (simp add: applyRule.simps Let_def leaf_rule_def demo_env_def leaf_value_def selText_def
      TrimSpace_def is_space_def set_default_transforms_def applyTransforms_def
      applyTransform_def safeString_def demo_compile_def)

lemma transform_loop_single:
  assumes "regexp_contract e"
    and "\<forall>r. reCompile e (Match t) = Some r \<longrightarrow> \<not> reMatch e r s"
    and "s \<noteq> []"
  shows "transform_loop e [t] [] s = (if (\<exists>r. reCompile e (Match t) = Some r) \<and> Split t then [s] else [], s)"
  using assms by (auto simp: regexp_contract_def split: option.splits)

text \<open>
  C8. For a string and a single transform whose pattern does not occur in it, the
  pipeline returns the string unchanged, as the only element of its result, whether the
  transform splits or replaces (and also when its pattern does not compile).
\<close>

theorem applyTransform_no_occurrence_identity:
  assumes "regexp_contract e"
    and "\<forall>r. reCompile e (Match t) = Some r \<longrightarrow> \<not> reMatch e r s"
  shows "applyTransform e (VStr s) [t] = [VStr s]"
proof (cases "s = []")
  case True
  then show ?thesis by (simp add: applyTransform_def safeString_def)
next
  case False
  with transform_loop_single[OF assms this] show ?thesis
    by (simp add: applyTransform_def safeString_def Let_def)
qed

lemma split_on_absent: "c \<notin> set s \<Longrightarrow> split_on c s = [s]"
  by (induction s) auto

lemma replace_absent: "c \<notin> set s \<Longrightarrow> concat (map (\<lambda>x. if x = c then rep else [x]) s) = s"
  by (induction s) auto

lemma demo_regexp_contract: "regexp_contract demo_env"
  unfolding regexp_contract_def
proof (intro allI impI)
  fix r s rep
  assume "\<not> reMatch demo_env r s"
  then show "reSplit demo_env r s = [s] \<and> reReplaceAll demo_env r s rep = s"
    by (cases r) (simp_all add: demo_env_def split_on_absent replace_absent)
qed

theorem applyTransform_no_occurrence_witness:
  "regexp_contract demo_env
   \<and> applyTransform demo_env (VStr ''one'') [\<lparr>Match = '','', Split = True, Replace = []\<rparr>] = [VStr ''one'']
   \<and> applyTransform demo_env (VStr ''one'') [\<lparr>Match = ''^//'', Split = False, Replace = ''https://''\<rparr>] = [VStr ''one'']"
proof -
  have 1: "\<forall>r. reCompile demo_env (Match \<lparr>Match = '','', Split = True, Replace = []\<rparr>) = Some r \<longrightarrow> \<not> reMatch demo_env r ''one''"
    by (simp add: demo_env_def demo_compile_def)
  have 2: "\<forall>r. reCompile demo_env (Match \<lparr>Match = ''^//'', Split = False, Replace = ''https://''\<rparr>) = Some r \<longrightarrow> \<not> reMatch demo_env r ''one''"
    by (simp add: demo_env_def demo_compile_def starts_with_def)
  show ?thesis
    using applyTransform_no_occurrence_identity[OF demo_regexp_contract 1]
      applyTransform_no_occurrence_identity[OF demo_regexp_contract 2]
      demo_regexp_contract
    by simp
qed

section \<open>What evaluation writes to its rule\<close>

lemma set_default_fields [simp]:
  "Name (set_default_transforms r) = Name r"
  "Selector (set_default_transforms r) = Selector r"
  "Attr (set_default_transforms r) = Attr r"
  "Multiple (set_default_transforms r) = Multiple r"
  "Download (set_default_transforms r) = Download r"
  "Visit (set_default_transforms r) = Visit r"
  "Flatten (set_default_transforms r) = Flatten r"
  "SaveDir (set_default_transforms r) = SaveDir r"
  by (simp_all add: set_default_transforms_def)

lemma strip_set_default [simp]:
  "strip_transforms (set_default_transforms r) = strip_transforms r"
  by (cases r) (simp add: set_default_transforms_def)

lemma set_children_Children [simp]: "set_children r (Children r) = r"
  by (cases r) (simp add: set_children_def)

lemma strip_unfold:
  "strip_transforms r = Rule (Name r) (Selector r) (Attr r) (Multiple r) (Download r) (Visit r)
      (Flatten r) (SaveDir r) (map strip_transforms (Children r)) []"
  by (cases r) simp

lemma strip_preserved:
  "strip_transforms (fst (applyRule e sel r)) = strip_transforms r"
  "map strip_transforms (fst (child_loop e s cs rec)) = map strip_transforms cs"
  "map strip_transforms (fst (record_attr e rule s cs)) = map strip_transforms cs"
  "map strip_transforms (fst (each_match e rule ns cs l)) = map strip_transforms cs"
proof (induction e sel r and e s cs rec and e rule s cs and e rule ns cs l
    rule: applyRule_child_loop_record_attr_each_match.induct)
  case (1 e sel rule0)
  let ?r = "set_default_transforms rule0"
  have base: "strip_transforms ?r = strip_transforms rule0" by simp
  show ?case
  proof (cases "length (Children ?r) > 0")
    case False
    then show ?thesis by (simp add: applyRule.simps[of e sel rule0] Let_def)
  next
    case True
    show ?thesis
    proof (cases "Multiple ?r")
      case m: True
      obtain cs l where eq: "each_match e ?r (Find e sel (Selector ?r)) (Children ?r) [] = (cs, l)"
        by (cases "each_match e ?r (Find e sel (Selector ?r)) (Children ?r) []")
      from 1(1)[OF refl True m] eq
      have "map strip_transforms cs = map strip_transforms (Children ?r)" by simp
      then have "strip_transforms (set_children ?r cs) = strip_transforms rule0"
        by (simp add: set_children_def strip_unfold[of rule0])
      with True m eq show ?thesis
        by (simp add: applyRule.simps[of e sel rule0] Let_def)
    next
      case m: False
      let ?s = "take 1 (Find e sel (Selector ?r))"
      obtain cs rec where eq: "child_loop e ?s (Children ?r) (single_attr e ?r ?s) = (cs, rec)"
        by (cases "child_loop e ?s (Children ?r) (single_attr e ?r ?s)")
      from 1(2)[OF refl True m refl] eq
      have "map strip_transforms cs = map strip_transforms (Children ?r)" by simp
      then have "strip_transforms (set_children ?r cs) = strip_transforms rule0"
        by (simp add: set_children_def strip_unfold[of rule0])
      with True m eq show ?thesis
        by (simp add: applyRule.simps[of e sel rule0] Let_def)
    qed
  qed
next
  case (2 e s rec)
  show ?case by simp
next
  case (3 e s c cs rec)
  then show ?case by (auto split: prod.splits)
next
  case (4 e rule s cs)
  then show ?case
    by (auto simp: record_attr.simps[of e rule s cs] Let_def split: option.splits)
next
  case (5 e rule cs list)
  show ?case by simp
next
  case (6 e rule n ns cs list)
  obtain cs1 rec1 where A: "record_attr e rule [n] cs = (cs1, rec1)"
    by (cases "record_attr e rule [n] cs")
  obtain cs2 rec2 where B:
    "(if \<not> Visit rule then child_loop e [n] cs1 rec1 else (cs1, rec1)) = (cs2, rec2)"
    by (cases "if \<not> Visit rule then child_loop e [n] cs1 rec1 else (cs1, rec1)")
  have 1: "map strip_transforms cs1 = map strip_transforms cs" using 6(1) A by simp
  have 2: "map strip_transforms cs2 = map strip_transforms cs1"
    using 6(2)[OF A[symmetric]] B by (auto split: if_splits)
  have 3: "map strip_transforms (fst (each_match e rule ns cs2 (list @ [VMap rec2]))) = map strip_transforms cs2"
    using 6(3)[OF A[symmetric] B[symmetric]] .
  show ?case using A B 1 2 3 by simp
qed

lemma applyRule_returns:
  "\<exists>v. snd (applyRule e sel r) = Inr v"
  by (simp add: applyRule.simps[of e sel r] Let_def split: prod.splits)

lemma has_transforms_unfold:
  "has_transforms r = (Transforms r \<noteq> [] \<and> list_all has_transforms (Children r))"
  by (cases r) simp

lemma unchanged_when_has_transforms:
  "has_transforms r \<Longrightarrow> fst (applyRule e sel r) = r"
  "list_all has_transforms cs \<Longrightarrow> fst (child_loop e s cs rec) = cs"
  "list_all has_transforms cs \<Longrightarrow> fst (record_attr e rule s cs) = cs"
  "list_all has_transforms cs \<Longrightarrow> fst (each_match e rule ns cs l) = cs"
proof (induction e sel r and e s cs rec and e rule s cs and e rule ns cs l
    rule: applyRule_child_loop_record_attr_each_match.induct)
  case (1 e sel rule0)
  from 1(3) have d: "set_default_transforms rule0 = rule0"
    by (simp add: set_default_transforms_def has_transforms_unfold[of rule0])
  from 1(3) have cs: "list_all has_transforms (Children rule0)"
    by (simp add: has_transforms_unfold[of rule0])
  show ?case
  proof (cases "length (Children rule0) > 0")
    case False
    then show ?thesis by (simp add: applyRule.simps[of e sel rule0] Let_def d)
  next
    case True
    show ?thesis
    proof (cases "Multiple rule0")
      case m: True
      from 1(1)[OF refl _ _ ] True m d cs
      have "fst (each_match e rule0 (Find e sel (Selector rule0)) (Children rule0) []) = Children rule0"
        by simp
      with True m show ?thesis
        by (auto simp: applyRule.simps[of e sel rule0] Let_def d split: prod.splits)
    next
      case m: False
      from 1(2)[OF refl _ _ refl] True m d cs
      have "fst (child_loop e (take 1 (Find e sel (Selector rule0))) (Children rule0)
                  (single_attr e rule0 (take 1 (Find e sel (Selector rule0))))) = Children rule0"
        by simp
      with True m show ?thesis
        by (auto simp: applyRule.simps[of e sel rule0] Let_def d split: prod.splits)
    qed
  qed
next
  case (2 e s rec)
  show ?case by simp
next
  case (3 e s c cs rec)
  then show ?case by (auto split: prod.splits)
next
  case (4 e rule s cs)
  then show ?case
    by (auto simp: record_attr.simps[of e rule s cs] Let_def split: option.splits)
next
  case (5 e rule cs list)
  show ?case by simp
next
  case (6 e rule n ns cs list)
  obtain cs1 rec1 where A: "record_attr e rule [n] cs = (cs1, rec1)"
    by (cases "record_attr e rule [n] cs")
  obtain cs2 rec2 where B:
    "(if \<not> Visit rule then child_loop e [n] cs1 rec1 else (cs1, rec1)) = (cs2, rec2)"
    by (cases "if \<not> Visit rule then child_loop e [n] cs1 rec1 else (cs1, rec1)")
  have 1: "cs1 = cs" using 6(1)[OF 6(4)] A by simp
  have 2: "cs2 = cs1"
    using 6(2)[OF A[symmetric]] B 6(4) 1 by (auto split: if_splits)
  have 3: "fst (each_match e rule ns cs2 (list @ [VMap rec2])) = cs2"
    using 6(3)[OF A[symmetric] B[symmetric]] 6(4) 1 2 by simp
  have "each_match e rule (n # ns) cs list = each_match e rule ns cs2 (list @ [VMap rec2])"
    using A B by simp
  with 1 2 3 show ?case by simp
qed

lemma evaluated_unfold:
  "evaluated e scopes r =
     (if scopes = [] then r
      else Rule (Name r) (Selector r) (Attr r) (Multiple r) (Download r) (Visit r) (Flatten r)
             (SaveDir r)
             (map (evaluated e (concat (map (child_scopes e r) scopes))) (Children r))
             (if Transforms r = [] then default_transforms else Transforms r))"
  by (cases r) simp

lemma evaluated_Nil [simp]: "evaluated e [] r = r"
  by (cases r) simp

lemma map_evaluated_Nil [simp]: "map (evaluated e []) cs = cs"
  by (induction cs) simp_all

declare evaluated.simps [simp del]

lemma child_scopes_fields:
  assumes "Selector r' = Selector r" "Multiple r' = Multiple r" "Visit r' = Visit r"
    "Attr r' = Attr r"
  shows "child_scopes e r' = child_scopes e r"
proof -
  have "match_scopes e r' = match_scopes e r"
    using assms by (intro ext) (simp add: match_scopes_def visit_scopes_def)
  with assms show ?thesis by (intro ext) (simp add: child_scopes_def)
qed

lemma evaluated_append:
  "evaluated e (ss1 @ ss2) r = evaluated e ss2 (evaluated e ss1 r)"
proof (induction r arbitrary: ss1 ss2)
  case (Rule n s a m d v f sd cs ts)
  let ?r = "Rule n s a m d v f sd cs ts"
  show ?case
  proof (cases "ss1 = [] \<or> ss2 = []")
    case True
    then show ?thesis by auto
  next
    case False
    let ?cs = "\<lambda>ss. concat (map (child_scopes e ?r) ss)"
    let ?ts = "if ts = [] then default_transforms else ts"
    have 1: "evaluated e ss1 ?r = Rule n s a m d v f sd (map (evaluated e (?cs ss1)) cs) ?ts"
      using False by (simp add: evaluated.simps)
    have same: "child_scopes e (Rule n s a m d v f sd (map (evaluated e (?cs ss1)) cs) ?ts)
                  = child_scopes e ?r"
      by (rule child_scopes_fields) simp_all
    have ts: "(if ?ts = [] then default_transforms else ?ts) = ?ts"
      by (simp add: default_transforms_def)
    have 2: "evaluated e ss2 (evaluated e ss1 ?r)
               = Rule n s a m d v f sd
                   (map (evaluated e (?cs ss2)) (map (evaluated e (?cs ss1)) cs)) ?ts"
      unfolding 1 using False by (simp add: evaluated.simps same ts del: map_map)
    have 3: "evaluated e (ss1 @ ss2) ?r
               = Rule n s a m d v f sd (map (evaluated e (?cs ss1 @ ?cs ss2)) cs) ?ts"
      using False by (simp add: evaluated.simps)
    have "map (evaluated e (?cs ss1 @ ?cs ss2)) cs
            = map (evaluated e (?cs ss2)) (map (evaluated e (?cs ss1)) cs)"
      using Rule.IH by simp
    with 2 3 show ?thesis by simp
  qed
qed

lemma evaluated_applyRule:
  "fst (applyRule e sel r) = evaluated e [sel] r"
  "fst (child_loop e s cs rec) = map (evaluated e [s]) cs"
  "fst (record_attr e rule s cs) = map (evaluated e (visit_scopes e rule s)) cs"
  "fst (each_match e rule ns cs l) = map (evaluated e (concat (map (match_scopes e rule) ns))) cs"
proof (induction e sel r and e s cs rec and e rule s cs and e rule ns cs l
    rule: applyRule_child_loop_record_attr_each_match.induct)
  case (1 e sel rule0)
  let ?r = "set_default_transforms rule0"
  have cs: "child_scopes e ?r = child_scopes e rule0"
    by (rule child_scopes_fields) simp_all
  have ms: "match_scopes e ?r = match_scopes e rule0"
    by (intro ext) (simp add: match_scopes_def visit_scopes_def)
  have T: "Transforms ?r = (if Transforms rule0 = [] then default_transforms else Transforms rule0)"
    by (simp add: set_default_transforms_def)
  show ?case
  proof (cases "length (Children ?r) > 0")
    case False
    then have "Children rule0 = []" by simp
    then show ?thesis
      by (cases rule0)
         (simp add: applyRule.simps Let_def evaluated.simps set_default_transforms_def)
  next
    case True
    show ?thesis
    proof (cases "Multiple ?r")
      case m: True
      obtain cs' l where eq: "each_match e ?r (Find e sel (Selector ?r)) (Children ?r) [] = (cs', l)"
        by (cases "each_match e ?r (Find e sel (Selector ?r)) (Children ?r) []")
      from 1(1)[OF refl True m] eq
      have "cs' = map (evaluated e (concat (map (match_scopes e rule0) (Find e sel (Selector rule0)))))
                    (Children rule0)" by (simp add: ms)
      with True m eq T show ?thesis
        by (simp add: applyRule.simps[of e sel rule0] Let_def evaluated_unfold[of e "[sel]" rule0]
            set_children_def child_scopes_def)
    next
      case m: False
      let ?s = "take 1 (Find e sel (Selector ?r))"
      obtain cs' rec where eq: "child_loop e ?s (Children ?r) (single_attr e ?r ?s) = (cs', rec)"
        by (cases "child_loop e ?s (Children ?r) (single_attr e ?r ?s)")
      from 1(2)[OF refl True m refl] eq
      have "cs' = map (evaluated e [take 1 (Find e sel (Selector rule0))]) (Children rule0)" by simp
      with True m eq T show ?thesis
        by (simp add: applyRule.simps[of e sel rule0] Let_def evaluated_unfold[of e "[sel]" rule0]
            set_children_def child_scopes_def)
    qed
  qed
next
  case (2 e s rec)
  show ?case by simp
next
  case (3 e s c cs rec)
  then show ?case by (auto split: prod.splits)
next
  case (4 e rule s cs)
  then show ?case
    by (auto simp: record_attr.simps[of e rule s cs] visit_scopes_def Let_def split: option.splits)
next
  case (5 e rule cs list)
  show ?case by simp
next
  case (6 e rule n ns cs list)
  obtain cs1 rec1 where A: "record_attr e rule [n] cs = (cs1, rec1)"
    by (cases "record_attr e rule [n] cs")
  obtain cs2 rec2 where B:
    "(if \<not> Visit rule then child_loop e [n] cs1 rec1 else (cs1, rec1)) = (cs2, rec2)"
    by (cases "if \<not> Visit rule then child_loop e [n] cs1 rec1 else (cs1, rec1)")
  have 1: "cs1 = map (evaluated e (visit_scopes e rule [n])) cs" using 6(1) A by simp
  have v: "\<not> Visit rule \<Longrightarrow> visit_scopes e rule [n] = []" by (simp add: visit_scopes_def)
  have 2: "cs2 = map (evaluated e (match_scopes e rule n)) cs"
  proof (cases "Visit rule")
    case True
    with B 1 show ?thesis by (simp add: match_scopes_def)
  next
    case False
    with 6(2)[OF A[symmetric]] B have "cs2 = map (evaluated e [[n]]) cs1" by simp
    with 1 v[OF False] False show ?thesis by (simp add: match_scopes_def)
  qed
  have 3: "fst (each_match e rule ns cs2 (list @ [VMap rec2]))
             = map (evaluated e (concat (map (match_scopes e rule) ns))) cs2"
    using 6(3)[OF A[symmetric] B[symmetric]] .
  have "each_match e rule (n # ns) cs list = each_match e rule ns cs2 (list @ [VMap rec2])"
    using A B by simp
  with 2 3 show ?case by (simp add: evaluated_append)
qed


section \<open>Assignments that are blocked, and what an assignment stores\<close>

lemma blocked_walk_keys: "blocked m ks \<Longrightarrow> walk_keys m ks v = Inr m"
proof (induction m ks v rule: walk_keys.induct)
  case (3 m key k2 ks v)
  then show ?case
    by (auto split: option.splits val.splits simp: AList.update_triv)
qed simp_all

lemma assign_last_stores:
  "assign_last m key v = Inr m' \<Longrightarrow>
     map_of m' (fst (leaf_write key v)) = Some (snd (leaf_write key v))"
  by (auto simp: assign_last_def leaf_write_def update_conv' split: val.splits option.splits if_splits)

lemma walk_keys_stores:
  "walk_keys m ks v = Inr m' \<Longrightarrow> \<not> blocked m ks \<Longrightarrow> ks \<noteq> [] \<Longrightarrow>
     lookup_keys m' (butlast ks @ [fst (leaf_write (last ks) v)]) = Some (snd (leaf_write (last ks) v))"
proof (induction m ks v arbitrary: m' rule: walk_keys.induct)
  case (1 m v)
  then show ?case by simp
next
  case (2 m key v)
  then show ?case by (simp add: assign_last_stores)
next
  case (3 m key k2 ks v)
  have L: "lookup_keys m (k # xs @ [y]) = (case map_of m k of Some (VMap sub) \<Rightarrow> lookup_keys sub (xs @ [y]) | _ \<Rightarrow> None)"
    for m k xs y by (cases xs) (auto split: option.splits val.splits)
  show ?case
  proof (cases "map_of m key")
    case None
    with 3(3) obtain sub where s: "walk_keys [] (k2 # ks) v = Inr sub" and m': "m' = AList.update key (VMap sub) m"
      by (auto split: sum.splits)
    have nb: "\<not> blocked [] (k2 # ks)" by (cases ks) simp_all
    from 3(1)[OF None s nb] have "lookup_keys sub (butlast (k2 # ks) @ [fst (leaf_write (last (k2 # ks)) v)]) = Some (snd (leaf_write (last (k2 # ks)) v))" by simp
    then show ?thesis using m' by (simp add: L update_conv')
  next
    case (Some a)
    with 3(4) obtain sub0 where a: "a = VMap sub0" and nb: "\<not> blocked sub0 (k2 # ks)"
      by (cases a) auto
    with 3(3) Some obtain sub where s: "walk_keys sub0 (k2 # ks) v = Inr sub" and m': "m' = AList.update key (VMap sub) m"
      by (auto split: sum.splits)
    from 3(2)[OF Some a s nb] have "lookup_keys sub (butlast (k2 # ks) @ [fst (leaf_write (last (k2 # ks)) v)]) = Some (snd (leaf_write (last (k2 # ks)) v))" by simp
    then show ?thesis using m' by (simp add: L update_conv')
  qed
qed

lemma split_on_nonempty [simp]: "split_on c s \<noteq> []"
  by (induction s) (auto split: list.splits)

lemma remap_loop_mappings:
  "remap_loop get g obj index rules remappedObj = Inr (rules', out) \<Longrightarrow>
     rules' = map normalize_mapping rules"
  by (induction rules arbitrary: remappedObj rules' out)
     (auto simp: Let_def split: sum.splits if_splits)

lemma mapping_value_fields:
  "mapping_value get g result d = Inr (d', v) \<Longrightarrow>
     Object d' = Object d \<and> Key d' = Key d \<and> To d' = To d \<and> Format d' = Format d
     \<and> IsArray d' = IsArray d \<and> IsObject d' = IsObject d"
  by (auto simp: mapping_value_def Let_def split: if_splits sum.splits)

lemma write_mapping_blocked:
  assumes "blocked (target_map st d) (split_on CHR ''.'' (To d))"
  shows "write_mapping st d v = Inr st"
proof -
  have cp: "complexPathing (target_map st d) (To d) v = Inr (target_map st d)"
    using assms by (simp add: complexPathing_def blocked_walk_keys)
  show ?thesis
  proof (cases "Object d = []")
    case True
    then show ?thesis using cp by (simp add: write_mapping_def target_map_def)
  next
    case False
    have "\<not> blocked [] ks" for ks by (cases "([] :: gomap, ks)" rule: blocked.cases) simp_all
    with False assms obtain m where m: "map_of (objMap st) (Object d) = Some m"
      by (cases "map_of (objMap st) (Object d)") (auto simp: target_map_def)
    then show ?thesis using cp False
      by (simp add: write_mapping_def target_map_def AList.update_triv)
  qed
qed

lemma mapping_loop_append:
  "mapping_loop get g result (ms1 @ ms2) st0 =
     (case mapping_loop get g result ms1 st0 of
        Inl p \<Rightarrow> Inl p
      | Inr (ms1', st1) \<Rightarrow>
          (case mapping_loop get g result ms2 st1 of
             Inl p \<Rightarrow> Inl p
           | Inr (ms2', st2) \<Rightarrow> Inr (ms1' @ ms2', st2)))"
  by (induction ms1 arbitrary: st0) (auto split: sum.splits)

lemmas demo_remap_simps =
  apply_mapping_def mapping_value_def write_mapping_def target_map_def demo_get_def
  gjson_value_def gjson_each_def complexPathing_def assign_last_def
  extractNumberFromBrackets_def bracket_at_def MapResultsResults_def leaf_write_def

section \<open>A visit that cannot be fetched\<close>

text \<open>
  C6, as amended. For a rule with children, \<open>Multiple\<close> and \<open>Visit\<close>, take a match
  whose attribute is not empty and resolves against the base URL. When the fetch of the
  resolved URL fails, the record of the match holds the resolved URL under the \<open>Attr\<close>
  key and nothing else, the children are not evaluated for this match, and the loop goes
  on with the next match. No evaluation returns an error.
\<close>

theorem visit_fetch_failure_records_resolved_url:
  assumes "Visit rule" and "Attr rule \<noteq> []" and "selAttr e [n] (Attr rule) = raw" and "raw \<noteq> []"
    and "Parse e raw = Some u2" and "Fetch e u2 = None"
  shows "each_match e rule (n # ns) cs list
           = each_match e rule ns cs (list @ [VMap [(Attr rule, VStr u2)]])
         \<and> (\<exists>v. snd (applyRule e sel r) = Inr v)"
  using assms applyRule_returns[of e sel r]
  by (simp add: record_attr.simps[of e rule "[n]" cs] Let_def)

text \<open>
  C6 as stated fails: the link \<open>/x\<close> of the page, whose fetch fails, is recorded as
  \<open>http://h/x\<close>, not as the raw attribute value.
\<close>

theorem visit_fetch_failure_counterexample:
  "selAttr demo_env [1] ''href'' = ''/x''
   \<and> Parse demo_env ''/x'' = Some ''http://h/x''
   \<and> Fetch demo_env ''http://h/x'' = None
   \<and> snd (applyRule demo_env [0]
         (Rule ''links'' ''a'' ''href'' True False True False []
            [Rule ''title'' ''h1'' [] False False False False [] [] []] []))
       = Inr (VArr [VMap [(''href'', VStr ''http://h/x'')], VMap [(''href'', VStr [])]])
   \<and> snd (applyRule demo_env [0]
         (Rule ''links'' ''a'' ''href'' True False True False []
            [Rule ''title'' ''h1'' [] False False False False [] [] []] []))
       \<noteq> Inr (VArr [VMap [(''href'', VStr ''/x'')], VMap [(''href'', VStr [])]])"
  by (simp add: applyRule.simps record_attr.simps demo_env_def selAttr_def Let_def
      set_default_transforms_def default_transforms_def set_children_def
      applyTransforms_def applyTransform_def safeString_def)

theorem visit_fetch_failure_witness:
  "each_match demo_env (Rule ''links'' ''a'' ''href'' True False True False [] [] []) [1, 2] [] []
     = each_match demo_env (Rule ''links'' ''a'' ''href'' True False True False [] [] []) [2] []
         [VMap [(''href'', VStr ''http://h/x'')]]"
  using visit_fetch_failure_records_resolved_url
    [of "Rule ''links'' ''a'' ''href'' True False True False [] [] []" demo_env 1 "''/x''"
        "''http://h/x''" "[2]" "[]" "[]"]
  by (simp add: demo_env_def selAttr_def)

section \<open>The rule and the mappings after a call\<close>

lemma replace_from_absent: "c \<notin> set s \<Longrightarrow> replace_from 0 [c] new s = s"
  by (induction s) (auto simp: starts_with_def)

lemma normalize_mapping_id:
  "CHR ''['' \<notin> set (Key m) \<Longrightarrow> CHR '']'' \<notin> set (Key m) \<Longrightarrow> Format m \<noteq> None \<Longrightarrow>
     normalize_mapping m = m"
  by (cases m) (auto simp: normalize_mapping_def ReplaceAll_def replace_from_absent)

lemma replace_from_single:
  "replace_from 0 [c] new s = concat (map (\<lambda>x. if x = c then new else [x]) s)"
  by (induction s) (auto simp: starts_with_def)

lemma normalize_mapping_idem [simp]:
  "normalize_mapping (normalize_mapping m) = normalize_mapping m"
proof -
  let ?k1 = "ReplaceAll (Key m) ''['' ''.''"
  let ?k2 = "ReplaceAll ?k1 '']'' []"
  have gone: "c \<notin> set (ReplaceAll s [c] new)" if "c \<notin> set new" for c new s
    using that by (auto simp: ReplaceAll_def replace_from_single split: if_splits)
  have kept: "c \<notin> set (ReplaceAll s [d] new)" if "c \<notin> set s" "c \<notin> set new" for c d new s
    using that by (auto simp: ReplaceAll_def replace_from_single split: if_splits)
  have 1: "CHR ''['' \<notin> set ?k2" by (intro kept gone) simp_all
  have 2: "CHR '']'' \<notin> set ?k2" by (intro gone) simp
  have "normalize_mapping (normalize_mapping m) = normalize_mapping m"
    by (rule normalize_mapping_id) (use 1 2 in \<open>auto simp: normalize_mapping_def split: option.splits\<close>)
  then show ?thesis .
qed

lemma each_value_mappings:
  "each_value get g sub index vs acc = Inr (sub', arr) \<Longrightarrow>
     sub' = (if vs = [] \<or> sub = [] then sub else map normalize_mapping sub)"
proof (induction vs arbitrary: sub index acc)
  case Nil
  then show ?case by simp
next
  case (Cons v vs)
  show ?case
  proof (cases "sub = []")
    case True
    with Cons.prems have "each_value get g [] (index + 1) vs (acc @ [v]) = Inr (sub', arr)" by simp
    from Cons.IH[OF this] True show ?thesis by simp
  next
    case False
    with Cons.prems obtain sub1 nested where
      r: "remapSingleObject get g v sub index = Inr (sub1, nested)"
      and e: "each_value get g sub1 (index + 1) vs (acc @ [VMap nested]) = Inr (sub', arr)"
      by (auto split: sum.splits)
    from r have s1: "sub1 = map normalize_mapping sub"
      by (simp add: remapSingleObject_def remap_loop_mappings)
    from Cons.IH[OF e] s1 False show ?thesis by simp
  qed
qed

lemma mapping_value_mapping:
  assumes "mapping_value get g result d = Inr (d', v)"
  shows "d' = mapping_after get result d"
proof (cases "IsArray d \<or> length (ArrayObjMap d) > 0")
  case False
  with assms show ?thesis by (simp add: mapping_value_def mapping_after_def)
next
  case True
  with assms obtain sub' arr where
    e: "each_value get g (ArrayObjMap d) 0 (gjson_each (get result (Key d))) [] = Inr (sub', arr)"
    and d': "d' = Mapping (Object d) (Key d) (To d) (Format d) (IsArray d) (IsObject d) sub'"
    by (auto simp: mapping_value_def Let_def split: sum.splits)
  from each_value_mappings[OF e] d' show ?thesis
    by (cases d) (auto simp: mapping_after_def)
qed

lemma mapping_loop_mappings:
  "mapping_loop get g result ms st = Inr (ms', st') \<Longrightarrow> ms' = map (mapping_after get result) ms"
proof (induction ms arbitrary: st ms')
  case Nil
  then show ?case by simp
next
  case (Cons d ms)
  from Cons.prems obtain d' st1 ms1 where a: "apply_mapping get g result st d = Inr (d', st1)"
    and l: "mapping_loop get g result ms st1 = Inr (ms1, st')" and ms': "ms' = d' # ms1"
    by (auto split: sum.splits)
  from a obtain v where "mapping_value get g result d = Inr (d', v)"
    by (auto simp: apply_mapping_def split: sum.splits)
  from mapping_value_mapping[OF this] Cons.IH[OF l] ms' show ?case by simp
qed

text \<open>
  C5, as amended. Evaluation returns its rule tree as \<open>evaluated\<close> describes it: every
  rule that is evaluated at least once has the default transform in place of an empty
  \<open>Transforms\<close>, and nothing else is changed, so a tree in which every rule has
  transforms is left as it is. \<open>remapSingleObject\<close> leaves each of its mappings with the
  brackets of \<open>Key\<close> rewritten (\<open>[\<close> to a dot, \<open>]\<close> removed) and a nil \<open>Format\<close>
  replaced by the empty map, and changes nothing else; a mapping whose \<open>Key\<close> has no
  bracket and whose \<open>Format\<close> is set is left as it is. \<open>MapResultsResults\<close> changes of
  its directives only the \<open>ArrayObjMap\<close>, in that way.
\<close>

theorem evaluation_and_remapping_write_only_defaults:
  "fst (applyRule e sel r) = evaluated e [sel] r
   \<and> strip_transforms (fst (applyRule e sel r)) = strip_transforms r
   \<and> (has_transforms r \<longrightarrow> fst (applyRule e sel r) = r)
   \<and> (\<forall>rules' out. remapSingleObject get g obj rules index = Inr (rules', out)
         \<longrightarrow> rules' = map normalize_mapping rules)
   \<and> (\<forall>ms' out. MapResultsResults get g result ms = Inr (ms', out)
         \<longrightarrow> ms' = map (mapping_after get (VMap result)) ms)
   \<and> (CHR ''['' \<notin> set (Key m) \<and> CHR '']'' \<notin> set (Key m) \<and> Format m \<noteq> None
         \<longrightarrow> normalize_mapping m = m)"
proof (intro conjI allI impI)
  show "fst (applyRule e sel r) = evaluated e [sel] r" by (rule evaluated_applyRule(1))
  show "strip_transforms (fst (applyRule e sel r)) = strip_transforms r"
    by (rule strip_preserved(1))
  show "fst (applyRule e sel r) = r" if "has_transforms r"
    using that by (rule unchanged_when_has_transforms(1))
  show "rules' = map normalize_mapping rules"
    if "remapSingleObject get g obj rules index = Inr (rules', out)" for rules' out
    using that by (simp add: remapSingleObject_def remap_loop_mappings)
  show "ms' = map (mapping_after get (VMap result)) ms"
    if "MapResultsResults get g result ms = Inr (ms', out)" for ms' out
    using that by (auto simp: MapResultsResults_def split: sum.splits dest: mapping_loop_mappings)
  show "normalize_mapping m = m"
    if "CHR ''['' \<notin> set (Key m) \<and> CHR '']'' \<notin> set (Key m) \<and> Format m \<noteq> None"
    using that by (simp add: normalize_mapping_id)
qed


theorem evaluation_and_remapping_witness:
  "fst (applyRule demo_env [0]
         (Rule ''links'' ''a'' ''href'' True False False False []
            [Rule ''title'' ''h1'' [] False False False False [] [] []] []))
     = Rule ''links'' ''a'' ''href'' True False False False []
            [Rule ''title'' ''h1'' [] False False False False [] [] default_transforms]
            default_transforms
   \<and> remapSingleObject demo_get demo_entropy (VMap [(''a'', VArr [VStr ''x''])])
         [Mapping [] ''a[0]'' ''b'' None False False []] 0
       = Inr (map normalize_mapping [Mapping [] ''a[0]'' ''b'' None False False []],
              [(''b'', VStr ''x'')])
   \<and> map normalize_mapping [Mapping [] ''a[0]'' ''b'' None False False []]
       = [Mapping [] ''a.0'' ''b'' (Some []) False False []]
   \<and> MapResultsResults demo_get demo_entropy [(''items'', VArr [VMap [(''a'', VArr [VStr ''x''])]])]
         [Mapping [] ''items'' ''out'' None False False [Mapping [] ''a[0]'' ''b'' None False False []]]
       = Inr ([Mapping [] ''items'' ''out'' None False False
                 [Mapping [] ''a.0'' ''b'' (Some []) False False []]],
              [(''out'', VArr [VMap [(''b'', VStr ''x'')]])])
   \<and> normalize_mapping (Mapping [] ''a.0'' ''b'' (Some []) False False [])
        = Mapping [] ''a.0'' ''b'' (Some []) False False []"
proof -
  have r: "remapSingleObject demo_get demo_entropy (VMap [(''a'', VArr [VStr ''x''])])
         [Mapping [] ''a[0]'' ''b'' None False False []] 0
       = Inr ([Mapping [] ''a.0'' ''b'' (Some []) False False []], [(''b'', VStr ''x'')])"
    by (simp add: remapSingleObject_def normalize_mapping_def ReplaceAll_def
      starts_with_def demo_get_def is_digit_def dec_val_def digit_val_def gjson_value_def
      complexPathing_def assign_last_def)
  have m: "MapResultsResults demo_get demo_entropy [(''items'', VArr [VMap [(''a'', VArr [VStr ''x''])]])]
         [Mapping [] ''items'' ''out'' None False False [Mapping [] ''a[0]'' ''b'' None False False []]]
       = Inr ([Mapping [] ''items'' ''out'' None False False
                 [Mapping [] ''a.0'' ''b'' (Some []) False False []]],
              [(''out'', VArr [VMap [(''b'', VStr ''x'')]])])"
    by (simp add: demo_remap_simps r)
  have n: "map normalize_mapping [Mapping [] ''a[0]'' ''b'' None False False []]
       = [Mapping [] ''a.0'' ''b'' (Some []) False False []]"
    by (simp add: normalize_mapping_def ReplaceAll_def starts_with_def)
  have ev: "evaluated demo_env [[0]]
         (Rule ''links'' ''a'' ''href'' True False False False []
            [Rule ''title'' ''h1'' [] False False False False [] [] []] [])
     = Rule ''links'' ''a'' ''href'' True False False False []
            [Rule ''title'' ''h1'' [] False False False False [] [] default_transforms]
            default_transforms"
    by (simp add: evaluated.simps child_scopes_def match_scopes_def demo_env_def)
  from evaluation_and_remapping_write_only_defaults
    [of demo_env "[0]"
        "Rule ''links'' ''a'' ''href'' True False False False []
            [Rule ''title'' ''h1'' [] False False False False [] [] []] []"
        demo_get demo_entropy "VMap [(''a'', VArr [VStr ''x''])]"
        "[Mapping [] ''a[0]'' ''b'' None False False []]" 0
        "[(''items'', VArr [VMap [(''a'', VArr [VStr ''x''])]])]"
        "[Mapping [] ''items'' ''out'' None False False [Mapping [] ''a[0]'' ''b'' None False False []]]"
        "Mapping [] ''a.0'' ''b'' (Some []) False False []"]
  show ?thesis by (simp add: ev r m n)
qed


text \<open>
  C5 as stated fails: evaluating a rule without transforms changes its \<open>Transforms\<close>,
  and remapping changes the \<open>Key\<close> and the \<open>Format\<close> of a mapping.
\<close>

theorem rule_and_mapping_are_written_counterexample:
  "fst (applyRule demo_env [0] (Rule ''title'' ''h1'' [] False False False False [] [] []))
     = Rule ''title'' ''h1'' [] False False False False [] []
         [\<lparr>Match = ''^//'', Split = False, Replace = ''https://''\<rparr>]
   \<and> remapSingleObject demo_get demo_entropy (VMap [(''a'', VArr [VStr ''x''])])
         [Mapping [] ''a[0]'' ''b'' None False False []] 0
     = Inr ([Mapping [] ''a.0'' ''b'' (Some []) False False []], [(''b'', VStr ''x'')])"
  by (simp add: applyRule.simps demo_env_def Let_def set_default_transforms_def
      default_transforms_def remapSingleObject_def normalize_mapping_def ReplaceAll_def
      starts_with_def demo_get_def is_digit_def dec_val_def digit_val_def gjson_value_def
      complexPathing_def assign_last_def)

section \<open>Directives of a remap\<close>

text \<open>
  A directive \<open>d\<close> whose path is blocked in the map it writes into leaves the state
  exactly as it was, and the directives after it run as if \<open>d\<close> were not there.
\<close>

lemma blocked_directive_is_skipped:
  assumes "mapping_loop get g (VMap result) ms1 \<lparr>objMap = [], remappedData = []\<rparr> = Inr (ms1', st1)"
    and "mapping_value get g (VMap result) d = Inr (d', v)"
    and "blocked (target_map st1 d) (split_on CHR ''.'' (To d))"
  shows "apply_mapping get g (VMap result) st1 d = Inr (d', st1)"
    and "MapResultsResults get g result (ms1 @ d # ms2)
           = (case mapping_loop get g (VMap result) ms2 st1 of
                Inl p \<Rightarrow> Inl p
              | Inr (ms2', st2) \<Rightarrow> Inr (ms1' @ d' # ms2', remappedData st2))"
proof -
  from mapping_value_fields[OF assms(2)]
  have f: "Object d' = Object d" "To d' = To d" by simp_all
  then have tm: "target_map st d' = target_map st d" for st by (simp add: target_map_def)
  have "write_mapping st1 d' v = Inr st1"
    using write_mapping_blocked[of st1 d' v] f tm assms(3) by simp
  then show a: "apply_mapping get g (VMap result) st1 d = Inr (d', st1)"
    using assms(2) by (simp add: apply_mapping_def)
  show "MapResultsResults get g result (ms1 @ d # ms2)
          = (case mapping_loop get g (VMap result) ms2 st1 of
               Inl p \<Rightarrow> Inl p
             | Inr (ms2', st2) \<Rightarrow> Inr (ms1' @ d' # ms2', remappedData st2))"
    using assms(1) a
    by (simp add: MapResultsResults_def mapping_loop_append split: sum.splits)
qed

text \<open>
  The last directive of a list, when it writes into the shared root and is not blocked:
  the output holds its value at its leaf, whatever the directives before it wrote there.
\<close>

lemma last_root_directive_is_present:
  assumes "mapping_loop get g (VMap result) ms1 \<lparr>objMap = [], remappedData = []\<rparr> = Inr (ms1', st1)"
    and "mapping_value get g (VMap result) d = Inr (d', v)"
    and "Object d = []" and "\<not> blocked (remappedData st1) (split_on CHR ''.'' (To d))"
    and "MapResultsResults get g result (ms1 @ [d]) = Inr (ms', out)"
  shows "lookup_keys out
           (butlast (split_on CHR ''.'' (To d))
              @ [fst (leaf_write (last (split_on CHR ''.'' (To d))) v)])
           = Some (snd (leaf_write (last (split_on CHR ''.'' (To d))) v))"
proof -
  from mapping_value_fields[OF assms(2)]
  have f: "Object d' = Object d" "To d' = To d" by simp_all
  from assms(1,2,5) obtain st2 where w: "write_mapping st1 d' v = Inr st2"
    and out: "out = remappedData st2"
    by (auto simp: MapResultsResults_def mapping_loop_append apply_mapping_def split: sum.splits)
  from w assms(3) f obtain m where cp: "complexPathing (remappedData st1) (To d) v = Inr m"
      and st2: "st2 = st1\<lparr>remappedData := m\<rparr>"
    by (auto simp: write_mapping_def target_map_def split: sum.splits)
  from cp have wk: "walk_keys (remappedData st1) (split_on CHR ''.'' (To d)) v = Inr m"
    by (simp add: complexPathing_def)
  have "lookup_keys m
                 (butlast (split_on CHR ''.'' (To d))
                    @ [fst (leaf_write (last (split_on CHR ''.'' (To d))) v)])
                 = Some (snd (leaf_write (last (split_on CHR ''.'' (To d))) v))"
    by (rule walk_keys_stores[OF wk assms(4)]) simp
  then show ?thesis using out st2 by simp
qed

lemma blocked_directive_example:
  "MapResultsResults demo_get demo_entropy
      [(''t'', VStr ''T''), (''items'', VArr [VStr ''1'', VStr ''2''])]
      [Mapping [] ''t'' ''payload'' None False False [],
       Mapping [] ''items'' ''payload.ids'' None True False [],
       Mapping [] ''t'' ''title'' None False False []]
     = Inr ([Mapping [] ''t'' ''payload'' None False False [],
             Mapping [] ''items'' ''payload.ids'' None True False [],
             Mapping [] ''t'' ''title'' None False False []],
            [(''payload'', VStr ''T''), (''title'', VStr ''T'')])"
  by (simp add: demo_remap_simps)

text \<open>A directive with an \<open>Object\<close> writes into its bucket and leaves the shared root.\<close>

lemma bucket_directive_keeps_root:
  assumes "Object d \<noteq> []" and "apply_mapping get g result st d = Inr (d', st')"
  shows "remappedData st' = remappedData st"
proof -
  from assms(2) obtain v where mv: "mapping_value get g result d = Inr (d', v)"
    and w: "write_mapping st d' v = Inr st'"
    by (auto simp: apply_mapping_def split: sum.splits)
  from mapping_value_fields[OF mv] assms(1) have "Object d' \<noteq> []" by simp
  with w show ?thesis by (auto simp: write_mapping_def split: sum.splits)
qed

lemma bucket_directives_keep_root:
  assumes "list_all (\<lambda>d. Object d \<noteq> []) ms"
    and "mapping_loop get g result ms st = Inr (ms', st')"
  shows "remappedData st' = remappedData st"
  using assms
proof (induction ms arbitrary: st ms')
  case Nil
  then show ?case by simp
next
  case (Cons d ms)
  from Cons.prems(2) obtain d' st1 ms1 where a: "apply_mapping get g result st d = Inr (d', st1)"
    and l: "mapping_loop get g result ms st1 = Inr (ms1, st')"
    by (auto split: sum.splits)
  from Cons.prems(1) have "Object d \<noteq> []" and rest: "list_all (\<lambda>d. Object d \<noteq> []) ms"
    by simp_all
  from bucket_directive_keeps_root[OF this(1) a] Cons.IH[OF rest l] show ?case by simp
qed

text \<open>
  C7. The claim has the value of the later of two directives that write the same leaf
  in the final output. \<open>MapResultsResults\<close> collects the writes of the directives that
  name an \<open>Object\<close> in \<open>objMap\<close> and returns \<open>remappedData\<close> alone: when every directive
  names an \<open>Object\<close>, the output of a call that returns is the empty map, whatever the
  directives wrote. Two of them that write the same leaf of the same bucket leave the
  value of the later one in the bucket, and the output holds the value of neither.
\<close>

theorem bucket_writes_never_reach_output:
  assumes "list_all (\<lambda>d. Object d \<noteq> []) ms"
    and "MapResultsResults get g result ms = Inr (ms', out)"
  shows "out = []"
proof -
  from assms(2) obtain st where l: "mapping_loop get g (VMap result) ms
                                      \<lparr>objMap = [], remappedData = []\<rparr> = Inr (ms', st)"
    and out: "out = remappedData st"
    by (auto simp: MapResultsResults_def split: sum.splits)
  from bucket_directives_keep_root[OF assms(1) l] out show ?thesis by simp
qed

theorem bucket_writes_never_reach_output_witness:
  "mapping_loop demo_get demo_entropy (VMap [(''t'', VStr ''T''), (''u'', VStr ''U'')])
      [Mapping ''o'' ''t'' ''a'' None False False [], Mapping ''o'' ''u'' ''a'' None False False []]
      \<lparr>objMap = [], remappedData = []\<rparr>
     = Inr ([Mapping ''o'' ''t'' ''a'' None False False [],
             Mapping ''o'' ''u'' ''a'' None False False []],
            \<lparr>objMap = [(''o'', [(''a'', VStr ''U'')])], remappedData = []\<rparr>)
   \<and> MapResultsResults demo_get demo_entropy [(''t'', VStr ''T''), (''u'', VStr ''U'')]
      [Mapping ''o'' ''t'' ''a'' None False False [], Mapping ''o'' ''u'' ''a'' None False False []]
     = Inr ([Mapping ''o'' ''t'' ''a'' None False False [],
             Mapping ''o'' ''u'' ''a'' None False False []], [])
   \<and> lookup_path [] ''a'' = None"
proof -
  have m: "MapResultsResults demo_get demo_entropy [(''t'', VStr ''T''), (''u'', VStr ''U'')]
      [Mapping ''o'' ''t'' ''a'' None False False [], Mapping ''o'' ''u'' ''a'' None False False []]
     = Inr ([Mapping ''o'' ''t'' ''a'' None False False [],
             Mapping ''o'' ''u'' ''a'' None False False []],
            remappedData \<lparr>objMap = [(''o'', [(''a'', VStr ''U'')])], remappedData = []\<rparr>)"
    by (simp add: demo_remap_simps)
  from bucket_writes_never_reach_output[OF _ m] show ?thesis
    by (simp add: demo_remap_simps lookup_path_def)
qed

section \<open>Downloads\<close>



text \<open>
  A download that has succeeded is not made again as long as the later call computes
  the same local path. It does when the name of the file is the last segment of the
  URL; a name taken from the clock is another one at another time, and then the same
  URL is fetched once more.
\<close>

lemma downloadResource_again:
  assumes "downloadResource os w nanos rawURL saveDir = ((p, None), w')"
    and "urlPath os rawURL = Some path"
    and "out_path os later path saveDir = out_path os nanos path saveDir"
  shows "downloadResource os w' later rawURL saveDir = ((p, None), w')"
proof -
  note path = assms(2)
  let ?o = "out_path os nanos path saveDir"
  have "p = ?o \<and> Stat w' ?o \<noteq> StatNotExist"
  proof (cases "Stat w ?o \<noteq> StatNotExist")
    case True
    with assms(1) path show ?thesis by (auto simp: downloadResource_def Let_def)
  next
    case False
    with assms(1) path have p: "p = ?o" and "map_of (files w') ?o \<noteq> None"
      by (auto simp: downloadResource_def Let_def update_conv'
          split: option.splits prod.splits if_splits)
    then show ?thesis by (simp add: Stat_def)
  qed
  with path assms(3) show ?thesis by (simp add: downloadResource_def Let_def)
qed

lemma out_path_named_by_url:
  assumes "Base os path \<noteq> []" and "Base os path \<noteq> ''/''"
  shows "out_path os later path saveDir = out_path os nanos path saveDir"
  using assms by (simp add: out_path_def)

lemma clock_named_file_is_fetched_again:
  "downloadResource demo_os empty_world 5 ''http://h/'' ''img''
     = ((''img/5'', None),
        \<lparr>files = [(''img/5'', ''page'')], dirs = [''img''], unreadable = [],
         requests = [''http://h/'']\<rparr>)
   \<and> downloadResource demo_os
        \<lparr>files = [(''img/5'', ''page'')], dirs = [''img''], unreadable = [],
         requests = [''http://h/'']\<rparr> 6 ''http://h/'' ''img''
     = ((''img/6'', None),
        \<lparr>files = [(''img/5'', ''page''), (''img/6'', ''page'')], dirs = [''img'', ''img''],
         unreadable = [], requests = [''http://h/'', ''http://h/'']\<rparr>)"
  by code_simp

lemma downloadResource_path:
  "fst (fst (downloadResource os w nanos rawURL saveDir)) \<in> {[], local_path os nanos rawURL saveDir}"
  by (auto simp: downloadResource_def local_path_def Let_def split: option.splits prod.splits)

text \<open>
  Under a context that is not cancelled, and for every order of the downloads, the block
  returns with one slot for each URL, and slot \<open>i\<close> holds the local path of URL \<open>i\<close> or
  the empty string.
\<close>

lemma worker_invariant:
  assumes "i < length urls" and "length dl = length urls"
    and "\<forall>j < length urls. dl ! j \<in> {[], local_path os (clock j) (urls ! j) dir}"
    and "worker os clock urls dir i (dl, w) = (dl', w')"
  shows "length dl' = length urls
         \<and> (\<forall>j < length urls. dl' ! j \<in> {[], local_path os (clock j) (urls ! j) dir})"
proof -
  obtain p err w1 where d: "downloadResource os w (clock i) (urls ! i) dir = ((p, err), w1)"
    by (metis prod.exhaust)
  with downloadResource_path[of os w "clock i" "urls ! i" dir]
  have p: "p \<in> {[], local_path os (clock i) (urls ! i) dir}"
    by simp
  from assms(4) d have dl': "dl' = dl[i := p]" by (simp add: worker_def)
  show ?thesis using assms(1-3) p by (auto simp: dl' nth_list_update)
qed

lemma workers_invariant:
  assumes "\<forall>i \<in> set is. i < length urls" and "length dl = length urls"
    and "\<forall>j < length urls. dl ! j \<in> {[], local_path os (clock j) (urls ! j) dir}"
    and "fold (worker os clock urls dir) is (dl, w) = (dl', w')"
  shows "length dl' = length urls
         \<and> (\<forall>j < length urls. dl' ! j \<in> {[], local_path os (clock j) (urls ! j) dir})"
  using assms
proof (induction "is" arbitrary: dl w)
  case Nil
  then show ?case by simp
next
  case (Cons i "is")
  obtain dl1 w1 where s: "worker os clock urls dir i (dl, w) = (dl1, w1)" by (metis prod.exhaust)
  from Cons.prems(1) have i: "i < length urls" by simp
  from worker_invariant[OF i Cons.prems(2,3) s]
  have inv: "length dl1 = length urls"
    "\<forall>j < length urls. dl1 ! j \<in> {[], local_path os (clock j) (urls ! j) dir}"
    by simp_all
  from Cons.prems(4) s have "fold (worker os clock urls dir) is (dl1, w1) = (dl', w')" by simp
  from Cons.IH[OF _ inv this] Cons.prems(1) show ?case by simp
qed

lemma download_block_slots:
  assumes "distinct sched" and "set sched = {0 ..< length (GetResultStringArray r name)}"
  shows "\<exists>dl w'. download_block os clock None sched r name dir w
                   = Some (AList.update name (VStrs dl) r, w')
           \<and> length dl = length (GetResultStringArray r name)
           \<and> (\<forall>i < length dl.
                 dl ! i \<in> {[], local_path os (clock i) (GetResultStringArray r name ! i) dir})"
proof -
  let ?urls = "GetResultStringArray r name"
  let ?started = "filter (\<lambda>i. i < length ?urls \<and> acquire_ok None i) sched"
  have st: "?started = sched" using assms(2) by (auto simp: acquire_ok_def intro: filter_True)
  have len: "length sched = length ?urls"
    using assms distinct_card[of sched] by simp
  obtain dl w' where
    f: "fold (worker os clock ?urls dir) sched (replicate (length ?urls) [], w) = (dl, w')"
    by (metis prod.exhaust)
  have "length dl = length ?urls
        \<and> (\<forall>j < length ?urls. dl ! j \<in> {[], local_path os (clock j) (?urls ! j) dir})"
    by (rule workers_invariant[OF _ _ _ f]) (use assms(2) in auto)
  moreover have "download_block os clock None sched r name dir w
                   = Some (AList.update name (VStrs dl) r, w')"
    using f len by (simp add: download_block_def Let_def st)
  ultimately show ?thesis by (intro exI[of _ dl] exI[of _ w']) simp
qed

text \<open>
  Two URLs can have the same local path. A download that finds the file of the other
  present returns its path without a request, so which of the two slots is empty after
  a failed fetch depends on the order of the downloads.
\<close>

lemma download_order_example:
  "map_option fst (download_block demo_os (\<lambda>i. 5) None [0, 1]
       [(''imgs'', VArr [VStr ''http://h/a.jpg'', VStr ''http://h/x/a.jpg.jpg''])] ''imgs'' ''img''
       empty_world)
     = Some [(''imgs'', VStrs [''img/a.jpg'', ''img/a.jpg''])]
   \<and> map_option fst (download_block demo_os (\<lambda>i. 5) None [1, 0]
       [(''imgs'', VArr [VStr ''http://h/a.jpg'', VStr ''http://h/x/a.jpg.jpg''])] ''imgs'' ''img''
       empty_world)
     = Some [(''imgs'', VStrs [''img/a.jpg'', []])]"
  by code_simp

lemma started_bound:
  assumes "distinct sched"
  shows "length (filter (\<lambda>i. i < n \<and> acquire_ok (Some k) i) sched) \<le> k"
proof -
  let ?started = "filter (\<lambda>i. i < n \<and> acquire_ok (Some k) i) sched"
  have d: "distinct ?started" using assms by simp
  have "set ?started \<subseteq> {0 ..< k}" by (auto simp: acquire_ok_def)
  then have "card (set ?started) \<le> card {0 ..< k}" by (intro card_mono) simp_all
  then show ?thesis using distinct_card[OF d] by simp
qed

text \<open>
  C1. The claim gives every call an output with one slot for each URL. The loop of
  \<open>DownloadResults\<close> calls \<open>wg.Add(1)\<close> before \<open>Acquire\<close> and goes on to the next URL
  when \<open>Acquire\<close> fails, without \<open>wg.Done()\<close>. Under a context that is cancelled before
  the last \<open>Acquire\<close>, fewer workers are started than were added, and \<open>wg.Wait()\<close>
  never returns: the call gives no output at all.
\<close>

theorem download_block_waits_forever_after_cancel:
  assumes "distinct sched" and "k < length (GetResultStringArray r name)"
  shows "download_block os clock (Some k) sched r name dir w = None"
proof -
  let ?urls = "GetResultStringArray r name"
  let ?started = "filter (\<lambda>i. i < length ?urls \<and> acquire_ok (Some k) i) sched"
  obtain dl w' where
    f: "fold (worker os clock ?urls dir) ?started (replicate (length ?urls) [], w) = (dl, w')"
    by (metis prod.exhaust)
  from started_bound[OF assms(1), of "length ?urls" k] assms(2)
  have ne: "length ?started \<noteq> length ?urls" by simp
  show ?thesis
    unfolding download_block_def Let_def f using ne by simp
qed

theorem download_block_cancel_witness:
  "download_block demo_os (\<lambda>i. 5) (Some 1) [0, 1]
     [(''imgs'', VArr [VStr ''http://h/a.jpg'', VStr ''http://h/b.jpg''])] ''imgs'' ''img'' empty_world
   = None"
  using download_block_waits_forever_after_cancel
    [of "[0, 1]" 1 "[(''imgs'', VArr [VStr ''http://h/a.jpg'', VStr ''http://h/b.jpg''])]" "''imgs''"
        demo_os "\<lambda>i. 5" "''img''" empty_world]
  by (simp add: GetResultStringArray_def safeString_def)

section \<open>Round trips of rule files\<close>

lemma elems_map_slice [simp]: "elems (map_slice f s) = map f (elems s)"
  by (cases s) simp_all

lemma decode_transform_encode:
  assumes "\<forall>s \<in> transform_strings t. dec_str x (enc_str x s) = s"
  shows "decode_transform c x (encode_transform c x t) = Some t"
  using assms
  by (simp add: decode_transform_def encode_transform_def put_str_def put_bool_def
      zero_transform_def transform_strings_def)

lemma decode_all_transforms:
  assumes "\<forall>t \<in> set ts. \<forall>s \<in> transform_strings t. dec_str x (enc_str x s) = s"
  shows "decode_all (decode_transform c x) (map (encode_transform c x) ts) = Some ts"
  using assms by (induction ts) (simp_all add: decode_transform_encode)

lemma fields_name:
  "dec_str x (enc_str x v) = v \<Longrightarrow>
   decode_rule_fields c x (put_str c x FName v @ rest) r =
   decode_rule_fields c x rest
     (ExtractionRule v (rSelector r) (rAttr r) (rMultiple r) (rDownload r) (rVisit r)
        (rFlatten r) (rSaveDir r) (rChildren r) (rTransforms r))"
  by (simp add: put_str_def)

lemma fields_selector:
  "dec_str x (enc_str x v) = v \<Longrightarrow>
   decode_rule_fields c x (put_str c x FSelector v @ rest) r =
   decode_rule_fields c x rest
     (ExtractionRule (rName r) v (rAttr r) (rMultiple r) (rDownload r) (rVisit r)
        (rFlatten r) (rSaveDir r) (rChildren r) (rTransforms r))"
  by (simp add: put_str_def)

lemma fields_attr:
  "dec_str x (enc_str x v) = v \<Longrightarrow> rAttr r = [] \<Longrightarrow>
   decode_rule_fields c x (put_str c x FAttr v @ rest) r =
   decode_rule_fields c x rest
     (ExtractionRule (rName r) (rSelector r) v (rMultiple r) (rDownload r) (rVisit r)
        (rFlatten r) (rSaveDir r) (rChildren r) (rTransforms r))"
  by (cases r) (simp add: put_str_def)

lemma fields_multiple:
  "\<not> rMultiple r \<Longrightarrow>
   decode_rule_fields c x (put_bool c FMultiple v @ rest) r =
   decode_rule_fields c x rest
     (ExtractionRule (rName r) (rSelector r) (rAttr r) v (rDownload r) (rVisit r)
        (rFlatten r) (rSaveDir r) (rChildren r) (rTransforms r))"
  by (cases r) (simp add: put_bool_def)

lemma fields_download:
  "\<not> rDownload r \<Longrightarrow>
   decode_rule_fields c x (put_bool c FDownload v @ rest) r =
   decode_rule_fields c x rest
     (ExtractionRule (rName r) (rSelector r) (rAttr r) (rMultiple r) v (rVisit r)
        (rFlatten r) (rSaveDir r) (rChildren r) (rTransforms r))"
  by (cases r) (simp add: put_bool_def)

lemma fields_visit:
  "decode_rule_fields c x (put_bool c FVisit v @ rest) r =
   decode_rule_fields c x rest
     (ExtractionRule (rName r) (rSelector r) (rAttr r) (rMultiple r) (rDownload r) v
        (rFlatten r) (rSaveDir r) (rChildren r) (rTransforms r))"
  by (simp add: put_bool_def)

lemma fields_flatten:
  "\<not> rFlatten r \<Longrightarrow>
   decode_rule_fields c x (put_bool c FFlatten v @ rest) r =
   decode_rule_fields c x rest
     (ExtractionRule (rName r) (rSelector r) (rAttr r) (rMultiple r) (rDownload r) (rVisit r)
        v (rSaveDir r) (rChildren r) (rTransforms r))"
  by (cases r) (simp add: put_bool_def)

lemma fields_save_dir:
  "dec_str x (enc_str x v) = v \<Longrightarrow> rSaveDir r = [] \<Longrightarrow>
   decode_rule_fields c x (put_str c x FSaveDir v @ rest) r =
   decode_rule_fields c x rest
     (ExtractionRule (rName r) (rSelector r) (rAttr r) (rMultiple r) (rDownload r) (rVisit r)
        (rFlatten r) v (rChildren r) (rTransforms r))"
  by (cases r) (simp add: put_str_def)

lemma fields_children:
  "decode_rule_list c x (elems ds) = Some (elems cs) \<Longrightarrow> length (elems ds) = length (elems cs) \<Longrightarrow>
   (ds = NilSlice \<longleftrightarrow> cs = NilSlice) \<Longrightarrow> rChildren r = NilSlice \<Longrightarrow>
   decode_rule_fields c x (put_seq c FChildren ds @ rest) r =
   decode_rule_fields c x rest
     (ExtractionRule (rName r) (rSelector r) (rAttr r) (rMultiple r) (rDownload r) (rVisit r)
        (rFlatten r) (rSaveDir r) (nil_if_empty cs) (rTransforms r))"
  by (cases r; cases ds; cases cs) (auto simp: put_seq_def nil_if_empty_def)

lemma fields_transforms:
  "decode_all (decode_transform c x) (elems ds) = Some (elems ts) \<Longrightarrow> length (elems ds) = length (elems ts) \<Longrightarrow>
   (ds = NilSlice \<longleftrightarrow> ts = NilSlice) \<Longrightarrow> rTransforms r = NilSlice \<Longrightarrow>
   decode_rule_fields c x (put_seq c FTransforms ds @ rest) r =
   decode_rule_fields c x rest
     (ExtractionRule (rName r) (rSelector r) (rAttr r) (rMultiple r) (rDownload r) (rVisit r)
        (rFlatten r) (rSaveDir r) (rChildren r) (nil_if_empty ts))"
  by (cases r; cases ds; cases ts) (auto simp: put_seq_def nil_if_empty_def)


lemma decode_rule_encode:
  "\<forall>s \<in> rule_strings r. dec_str x (enc_str x s) = s \<Longrightarrow>
     decode_rule c x (encode_rule c x r) = Some (read_back r)"
proof (induction r)
  case (ExtractionRule n s a m d v f sd cs ts)
  have "decode_rule_list c x (map (encode_rule c x) ks) = Some (map read_back ks)"
    if "set ks \<subseteq> set (elems cs)" for ks
    using that
  proof (induction ks)
    case Nil
    show ?case by simp
  next
    case (Cons k ks)
    from Cons.prems have k: "k \<in> set_slice cs" by (cases cs) simp_all
    have "decode_rule c x (encode_rule c x k) = Some (read_back k)"
      by (rule ExtractionRule.IH[OF k]) (use Cons.prems ExtractionRule.prems in auto)
    moreover have "decode_rule_list c x (map (encode_rule c x) ks) = Some (map read_back ks)"
      by (rule Cons.IH) (use Cons.prems in auto)
    ultimately show ?case by simp
  qed
  then have cs: "decode_rule_list c x (elems (map_slice (encode_rule c x) cs))
                   = Some (elems (map_slice read_back cs))"
    by simp
  have ts: "decode_all (decode_transform c x) (elems (map_slice (encode_transform c x) ts))
              = Some (elems ts)"
    by (simp, rule decode_all_transforms) (use ExtractionRule.prems in auto)
  have nil: "(map_slice g sl = NilSlice) = (sl = NilSlice)" for g :: "'a \<Rightarrow> 'b" and sl
    by (cases sl) simp_all
  have str: "dec_str x (enc_str x n) = n" "dec_str x (enc_str x s) = s"
    "dec_str x (enc_str x a) = a" "dec_str x (enc_str x sd) = sd"
    using ExtractionRule.prems by simp_all
  have "decode_rule_fields c x
          (put_str c x FName n @ put_str c x FSelector s @ put_str c x FAttr a
           @ put_bool c FMultiple m @ put_bool c FDownload d @ put_bool c FVisit v
           @ put_bool c FFlatten f @ put_str c x FSaveDir sd
           @ put_seq c FChildren (map_slice (encode_rule c x) cs)
           @ put_seq c FTransforms (map_slice (encode_transform c x) ts) @ []) zero_rule
        = Some (ExtractionRule n s a m d v f sd (nil_if_empty (map_slice read_back cs))
                  (nil_if_empty ts))"
    by (simp only: fields_name[OF str(1)] fields_selector[OF str(2)] extraction_rule.sel
          zero_rule_def)
       (simp add: fields_attr[OF str(3)] fields_multiple fields_download fields_visit
          fields_flatten fields_save_dir[OF str(4)] fields_children[OF cs] nil
          fields_transforms[OF ts, where rest = "[]", simplified])
  then show ?case by simp
qed

lemma decode_rule_list_encode:
  "\<forall>r \<in> set rs. \<forall>s \<in> rule_strings r. dec_str x (enc_str x s) = s \<Longrightarrow>
     decode_rule_list c x (map (encode_rule c x) rs) = Some (map read_back rs)"
  by (induction rs) (simp_all add: decode_rule_encode)

lemma nil_if_empty_id: "s \<noteq> Slice [] \<Longrightarrow> nil_if_empty s = s"
  by (cases s) (auto simp: nil_if_empty_def)

lemma read_back_id: "no_empty_slice r \<Longrightarrow> read_back r = r"
proof (induction r)
  case (ExtractionRule n s a m d v f sd cs ts)
  have "map_slice read_back cs = cs"
  proof (cases cs)
    case NilSlice
    then show ?thesis by simp
  next
    case (Slice ks)
    have "map read_back ks = ks"
      by (rule map_idI, rule ExtractionRule.IH)
         (use Slice ExtractionRule.prems in \<open>auto simp: list_all_iff\<close>)
    with Slice show ?thesis by simp
  qed
  with ExtractionRule.prems show ?case by (simp add: nil_if_empty_id)
qed

lemma read_back_rules_id:
  assumes "list_all no_empty_slice (elems rules)" and "c = YAML \<longrightarrow> rules \<noteq> NilSlice"
  shows "read_back_rules c rules = rules"
proof (cases rules)
  case NilSlice
  with assms show ?thesis by (simp add: read_back_rules_def)
next
  case (Slice rs)
  with assms(1) have "map read_back rs = rs"
    by (intro map_idI read_back_id) (simp add: list_all_iff)
  with Slice show ?thesis by (simp add: read_back_rules_def)
qed

text \<open>The evaluator reads the same rule in a rule and in the rule read back.\<close>

lemma rule_of_read_back: "rule_of (read_back r) = rule_of r"
proof (induction r)
  case (ExtractionRule n s a m d v f sd cs ts)
  have "map rule_of (map read_back (elems cs)) = map rule_of (elems cs)"
    using ExtractionRule.IH by (simp add: set_elems)
  then show ?case by (simp add: nil_if_empty_def)
qed

text \<open>
  C9, as amended. For every list of rule trees whose strings the codec carries, writing
  the list and reading it back gives the rules as \<open>read_back\<close> describes them, for
  JSON, for YAML and for the document store: equal field for field and at every node,
  except that a \<open>Children\<close> or \<open>Transforms\<close> slice of length zero is nil. So a list in
  which no such slice is empty without being nil is read back as it was written, when
  the list itself is not nil or the codec is not YAML.
\<close>

theorem rule_files_round_trip:
  assumes "carries x rules"
  shows "LoadRules c x (SaveRules c x rules) = Some (read_back_rules c rules)
         \<and> LoadRulesFromMongo x (SaveRulesToMongo x key ts rules)
             = Some (read_back_rules BSON rules)
         \<and> (list_all no_empty_slice (elems rules) \<and> (c = YAML \<longrightarrow> rules \<noteq> NilSlice) \<longrightarrow>
              LoadRules c x (SaveRules c x rules) = Some rules)
         \<and> (list_all no_empty_slice (elems rules) \<longrightarrow>
              LoadRulesFromMongo x (SaveRulesToMongo x key ts rules) = Some rules)"
proof -
  have l: "LoadRules c x (SaveRules c x rules) = Some (read_back_rules c rules)" for c
  proof (cases rules)
    case NilSlice
    then show ?thesis
      by (simp add: LoadRules_def SaveRules_def decode_rules_def encode_rules_def
          read_back_rules_def)
  next
    case (Slice rs)
    with assms have "decode_rule_list c x (map (encode_rule c x) rs) = Some (map read_back rs)"
      by (intro decode_rule_list_encode) (simp add: carries_def)
    with Slice show ?thesis
      by (simp add: LoadRules_def SaveRules_def decode_rules_def encode_rules_def
          read_back_rules_def)
  qed
  have m: "LoadRulesFromMongo x (SaveRulesToMongo x key ts rules)
             = LoadRules BSON x (SaveRules BSON x rules)"
    by (simp add: LoadRulesFromMongo_def SaveRulesToMongo_def LoadRules_def SaveRules_def)
  show ?thesis
    using l m read_back_rules_id[of rules c] read_back_rules_id[of rules BSON] by simp
qed

theorem rule_files_round_trip_witness:
  "LoadRules YAML \<lparr>enc_str = (\<lambda>s. s), dec_str = (\<lambda>s. s)\<rparr>
     (SaveRules YAML \<lparr>enc_str = (\<lambda>s. s), dec_str = (\<lambda>s. s)\<rparr>
        (Slice [ExtractionRule ''a'' ''s1'' [] False False False False [] NilSlice NilSlice,
                ExtractionRule ''b'' ''s2'' ''href'' True False False False []
                  (Slice [ExtractionRule ''t'' ''h1'' [] False False True False [] NilSlice
                            (Slice [\<lparr>Match = '','', Split = True, Replace = []\<rparr>])])
                  NilSlice]))
   = Some (Slice [ExtractionRule ''a'' ''s1'' [] False False False False [] NilSlice NilSlice,
                  ExtractionRule ''b'' ''s2'' ''href'' True False False False []
                    (Slice [ExtractionRule ''t'' ''h1'' [] False False True False [] NilSlice
                              (Slice [\<lparr>Match = '','', Split = True, Replace = []\<rparr>])])
                    NilSlice])"
proof -
  let ?x = "\<lparr>enc_str = (\<lambda>s. s), dec_str = (\<lambda>s. s)\<rparr>"
  let ?R = "Slice [ExtractionRule ''a'' ''s1'' [] False False False False [] NilSlice NilSlice,
                ExtractionRule ''b'' ''s2'' ''href'' True False False False []
                  (Slice [ExtractionRule ''t'' ''h1'' [] False False True False [] NilSlice
                            (Slice [\<lparr>Match = '','', Split = True, Replace = []\<rparr>])])
                  NilSlice]"
  have c: "carries ?x ?R" by (simp add: carries_def)
  have n: "list_all no_empty_slice (elems ?R) \<and> (YAML = YAML \<longrightarrow> ?R \<noteq> NilSlice)" by simp
  from rule_files_round_trip[OF c, of YAML] n show ?thesis by blast
qed

text \<open>
  C9 as stated fails: a rule with an empty \<open>Children\<close> slice that is not nil is read
  back with a nil one, a name with a byte that is not UTF-8 is read back from JSON with
  the replacement character, and a nil list is read back from YAML as an empty one.
\<close>

theorem empty_slice_is_read_back_nil_counterexample:
  "LoadRules JSON \<lparr>enc_str = (\<lambda>s. s), dec_str = (\<lambda>s. s)\<rparr>
     (SaveRules JSON \<lparr>enc_str = (\<lambda>s. s), dec_str = (\<lambda>s. s)\<rparr>
        (Slice [ExtractionRule ''a'' ''s1'' [] False False False False [] (Slice []) NilSlice]))
   = Some (Slice [ExtractionRule ''a'' ''s1'' [] False False False False [] NilSlice NilSlice])
   \<and> LoadRules JSON json_text
         (SaveRules JSON json_text
            (Slice [ExtractionRule [CHR 0xFF] ''s1'' [] False False False False [] NilSlice NilSlice]))
       = Some (Slice [ExtractionRule [CHR 0xEF, CHR 0xBF, CHR 0xBD] ''s1'' [] False False False
                        False [] NilSlice NilSlice])
   \<and> LoadRules YAML \<lparr>enc_str = (\<lambda>s. s), dec_str = (\<lambda>s. s)\<rparr>
         (SaveRules YAML \<lparr>enc_str = (\<lambda>s. s), dec_str = (\<lambda>s. s)\<rparr> NilSlice)
       = Some (Slice [])"
  by (simp add: LoadRules_def SaveRules_def decode_rules_def encode_rules_def put_str_def
      put_bool_def put_seq_def zero_rule_def json_text_def)

end
